theory Spec2Isabelle
  imports Main
begin

section \<open>Python values, dictionaries and errors\<close>

text \<open>
  The two scripts \<^verbatim>\<open>xmi2json.py\<close> and \<^verbatim>\<open>xmi2conll.py\<close> work on Python strings,
  integers and dictionaries. A string is a \<^typ>\<open>string\<close>: a list of characters, each a code
  point below 256. The character classes of the regular expressions, of \<^verbatim>\<open>str.split\<close>,
  \<^verbatim>\<open>str.strip\<close> and of \<^verbatim>\<open>int\<close> are Python's Unicode classes on these code points; a text
  with a code point from 256 on is outside the model. The values stored in an
  annotation dictionary are integers (the offsets) or strings (everything else). A
  dictionary is an association list with distinct keys in insertion order: assigning to
  a key that is present replaces the value where it stands, assigning to a new key
  appends it, as Python's \<^verbatim>\<open>dict\<close> does.
\<close>

datatype pyval = PInt int | PStr string

datatype error = ParseError | TypeError | ValueError | KeyError | AttributeError

type_synonym ('k, 'v) dict = "('k \<times> 'v) list"

definition dict_get :: "('k, 'v) dict \<Rightarrow> 'k \<Rightarrow> 'v option" where
  "dict_get d k = map_of d k"

definition dict_has :: "('k, 'v) dict \<Rightarrow> 'k \<Rightarrow> bool" where
  "dict_has d k = (dict_get d k \<noteq> None)"

fun dict_set :: "'k \<Rightarrow> 'v \<Rightarrow> ('k, 'v) dict \<Rightarrow> ('k, 'v) dict" where
  "dict_set k v [] = [(k, v)]"
| "dict_set k v ((k', v') # d) =
     (if k' = k then (k, v) # d else (k', v') # dict_set k v d)"

definition dict_values :: "('k, 'v) dict \<Rightarrow> 'v list" where
  "dict_values d = map snd d"

text \<open>\<^verbatim>\<open>d[k]\<close> raises \<^verbatim>\<open>KeyError\<close> on a missing key.\<close>

definition dict_item :: "('k, 'v) dict \<Rightarrow> 'k \<Rightarrow> error + 'v" where
  "dict_item d k = (case dict_get d k of None \<Rightarrow> Inl KeyError | Some v \<Rightarrow> Inr v)"

section \<open>Character classes and string primitives\<close>

text \<open>\<^verbatim>\<open>ord(c)\<close>.\<close>

definition code_point :: "char \<Rightarrow> nat" where
  "code_point c = of_char c"

definition in_range :: "char \<Rightarrow> char \<Rightarrow> char \<Rightarrow> bool" where
  "in_range lo hi c = (code_point lo \<le> code_point c \<and> code_point c \<le> code_point hi)"

definition is_digit :: "char \<Rightarrow> bool" where
  "is_digit c = in_range (CHR ''0'') (CHR ''9'') c"

text \<open>\<^verbatim>\<open>\d\<close> matches the decimal digits (category Nd); below 256 these are \<^verbatim>\<open>0\<close> to \<^verbatim>\<open>9\<close>.
  \<^verbatim>\<open>\w\<close> matches the underscore and every character for which \<^verbatim>\<open>str.isalnum()\<close> holds:
  the ASCII letters and digits, and above 127 the letters U+00AA, U+00B5, U+00BA,
  U+00C0 to U+00D6, U+00D8 to U+00F6 and U+00F8 to U+00FF, the superscript digits
  U+00B2, U+00B3 and U+00B9, and the fractions U+00BC to U+00BE.\<close>

definition is_word :: "char \<Rightarrow> bool" where
  "is_word c = (in_range (CHR ''a'') (CHR ''z'') c \<or> in_range (CHR ''A'') (CHR ''Z'') c
                 \<or> is_digit c \<or> c = CHR ''_''
                 \<or> c = CHR 0xAA \<or> c = CHR 0xB5 \<or> c = CHR 0xBA
                 \<or> in_range (CHR 0xC0) (CHR 0xD6) c \<or> in_range (CHR 0xD8) (CHR 0xF6) c
                 \<or> in_range (CHR 0xF8) (CHR 0xFF) c
                 \<or> c = CHR 0xB2 \<or> c = CHR 0xB3 \<or> c = CHR 0xB9
                 \<or> in_range (CHR 0xBC) (CHR 0xBE) c)"

text \<open>Whitespace of \<^verbatim>\<open>str.split()\<close>, \<^verbatim>\<open>str.strip()\<close> and \<^verbatim>\<open>\s\<close> (\<^verbatim>\<open>str.isspace()\<close>): tab,
  newline, vertical tab, form feed, carriage return, the separators 0x1C to 0x1F, space,
  and above 127 the next-line character U+0085 and the no-break space U+00A0.\<close>

definition is_space :: "char \<Rightarrow> bool" where
  "is_space c = (c = CHR '' '' \<or> in_range (CHR 0x09) (CHR 0x0D) c \<or> in_range (CHR 0x1C) (CHR 0x1F) c
                  \<or> c = CHR 0x85 \<or> c = CHR 0xA0)"

definition digit_val :: "char \<Rightarrow> nat" where
  "digit_val c = code_point c - 48"

definition starts_with :: "string \<Rightarrow> string \<Rightarrow> bool" where
  "starts_with s p = (take (length p) s = p)"

text \<open>\<^verbatim>\<open>s.strip()\<close>.\<close>

definition strip :: "string \<Rightarrow> string" where
  "strip s = rev (dropWhile is_space (rev (dropWhile is_space s)))"

text \<open>
  \<^verbatim>\<open>int(s)\<close> on a string: surrounding whitespace is ignored, one sign is allowed, and
  the digits may be grouped by single underscores. \<open>None\<close> stands for \<^verbatim>\<open>ValueError\<close>.
  The whitespace \<^verbatim>\<open>int\<close> ignores is not that of \<^verbatim>\<open>str.strip\<close>: it is tab to carriage
  return and space, and above 127 the characters U+0085 and U+00A0, which \<^verbatim>\<open>int\<close> turns
  into spaces first; the separators 0x1C to 0x1F are rejected. A string with more than
  4300 digits is rejected (the default \<^verbatim>\<open>sys.int_max_str_digits\<close> of CPython 3.11 and
  later); underscores, the sign and the whitespace do not count.
\<close>

definition is_int_space :: "char \<Rightarrow> bool" where
  "is_int_space c = (c = CHR '' '' \<or> in_range (CHR 0x09) (CHR 0x0D) c
                      \<or> c = CHR 0x85 \<or> c = CHR 0xA0)"

definition int_strip :: "string \<Rightarrow> string" where
  "int_strip s = rev (dropWhile is_int_space (rev (dropWhile is_int_space s)))"

definition int_max_str_digits :: nat where
  "int_max_str_digits = 4300"

fun parse_digits :: "nat \<Rightarrow> string \<Rightarrow> nat option" where
  "parse_digits acc [] = Some acc"
| "parse_digits acc [c] = (if is_digit c then Some (10 * acc + digit_val c) else None)"
| "parse_digits acc (c # d # cs) =
     (if is_digit c then parse_digits (10 * acc + digit_val c) (d # cs)
      else if c = CHR ''_'' \<and> is_digit d then parse_digits acc (d # cs)
      else None)"

definition parse_nat :: "string \<Rightarrow> nat option" where
  "parse_nat s =
     (case s of [] \<Rightarrow> None
      | c # cs \<Rightarrow>
          if is_digit c \<and> length (filter is_digit s) \<le> int_max_str_digits
          then parse_digits (digit_val c) cs else None)"

definition py_int :: "string \<Rightarrow> int option" where
  "py_int s =
     (case int_strip s of [] \<Rightarrow> None
      | c # cs \<Rightarrow>
          if c = CHR ''-'' then map_option (\<lambda>n. - int n) (parse_nat cs)
          else if c = CHR ''+'' then map_option int (parse_nat cs)
          else map_option int (parse_nat (c # cs)))"

text \<open>\<^verbatim>\<open>int(x)\<close> where \<^verbatim>\<open>x\<close> is the result of \<^verbatim>\<open>element.get(name)\<close>: \<^verbatim>\<open>int(None)\<close> is a
  \<^verbatim>\<open>TypeError\<close>, a string that is no integer a \<^verbatim>\<open>ValueError\<close>.\<close>

definition int_of_attr :: "string option \<Rightarrow> error + int" where
  "int_of_attr a =
     (case a of None \<Rightarrow> Inl TypeError
      | Some s \<Rightarrow> (case py_int s of None \<Rightarrow> Inl ValueError | Some i \<Rightarrow> Inr i))"

text \<open>\<^verbatim>\<open>str(i)\<close> for an integer, as an f-string renders it: the conversion raises
  \<^verbatim>\<open>ValueError\<close> for an integer of more than 4300 digits.\<close>

fun str_of_nat :: "nat \<Rightarrow> string" where
  "str_of_nat n =
     (if n < 10 then [char_of (48 + n)] else str_of_nat (n div 10) @ [char_of (48 + n mod 10)])"

definition str_of_int :: "int \<Rightarrow> string" where
  "str_of_int i = (if i < 0 then CHR ''-'' # str_of_nat (nat (- i)) else str_of_nat (nat i))"

definition format_int :: "int \<Rightarrow> error + string" where
  "format_int i =
     (if int_max_str_digits < length (str_of_nat (nat \<bar>i\<bar>)) then Inl ValueError
      else Inr (str_of_int i))"

text \<open>\<^verbatim>\<open>f"{v}"\<close> for a value taken from a dictionary.\<close>

definition py_format :: "pyval \<Rightarrow> error + string" where
  "py_format v = (case v of PStr s \<Rightarrow> Inr s | PInt i \<Rightarrow> format_int i)"

text \<open>\<^verbatim>\<open>sep.join(xs)\<close>.\<close>

fun join :: "string \<Rightarrow> string list \<Rightarrow> string" where
  "join sep [] = []"
| "join sep [x] = x"
| "join sep (x # y # ys) = x @ sep @ join sep (y # ys)"

text \<open>\<^verbatim>\<open>s.split("\n")\<close>: the pieces between newlines, empty pieces kept.\<close>

fun split_nl :: "string \<Rightarrow> string list" where
  "split_nl [] = [[]]"
| "split_nl (c # cs) =
     (if c = CHR 0x0A then [] # split_nl cs
      else (case split_nl cs of [] \<Rightarrow> [[c]] | l # ls \<Rightarrow> (c # l) # ls))"

section \<open>The regular expressions of \<^verbatim>\<open>extract_custom_annos\<close>\<close>

text \<open>\<^verbatim>\<open>re.search(p, line)\<close> tries the pattern at every position from the left and returns
  the first match; \<open>m\<close> is the pattern matched at the head of a string.\<close>

fun re_search :: "(string \<Rightarrow> 'a option) \<Rightarrow> string \<Rightarrow> 'a option" where
  "re_search m [] = m []"
| "re_search m (c # cs) = (case m (c # cs) of Some g \<Rightarrow> Some g | None \<Rightarrow> re_search m cs)"

text \<open>The part \<^verbatim>\<open>\d?:\<close> of the label pattern: a colon, or a digit and a colon. The result
  is the text after the colon.\<close>

fun after_custom_ns :: "string \<Rightarrow> string option" where
  "after_custom_ns [] = None"
| "after_custom_ns [c] = (if c = CHR '':'' then Some [] else None)"
| "after_custom_ns (c # d # cs) =
     (if c = CHR '':'' then Some (d # cs)
      else if is_digit c \<and> d = CHR '':'' then Some cs
      else None)"

text \<open>\<^verbatim>\<open><custom\d?:(\w+)\<close> at the head of a string; the result is group 1.\<close>

definition label_at :: "string \<Rightarrow> string option" where
  "label_at s =
     (if starts_with s ''<custom'' then
        (case after_custom_ns (drop 7 s) of None \<Rightarrow> None
         | Some r \<Rightarrow> (let w = takeWhile is_word r in if w = [] then None else Some w))
      else None)"

text \<open>\<^verbatim>\<open>name="(\d+)"\<close> at the head of a string, for the three patterns
  \<^verbatim>\<open>xmi:id="(\d+)"\<close>, \<^verbatim>\<open>begin="(\d+)"\<close> and \<^verbatim>\<open>end="(\d+)"\<close>; the result is group 1. The
  digits are followed by the closing quote, so the group is the whole run of digits.\<close>

definition digits_attr_at :: "string \<Rightarrow> string \<Rightarrow> string option" where
  "digits_attr_at name s =
     (let p = name @ [CHR ''='', CHR 0x22] in
      if starts_with s p then
        (let r = drop (length p) s; ds = takeWhile is_digit r in
         if ds \<noteq> [] \<and> starts_with (drop (length ds) r) [CHR 0x22] then Some ds else None)
      else None)"

text \<open>\<^verbatim>\<open>(\w+)="([^"]+)"\<close> at the head of a string: groups 1 and 2 and the length of the
  match. The name is a whole run of word characters and the value a whole run of
  characters other than the quote, since each is followed by a character outside its
  class.\<close>

definition attribute_at :: "string \<Rightarrow> (string \<times> string \<times> nat) option" where
  "attribute_at s =
     (let w = takeWhile is_word s; r = drop (length w) s in
      if w \<noteq> [] \<and> starts_with r [CHR ''='', CHR 0x22] then
        (let r' = drop 2 r; v = takeWhile (\<lambda>c. c \<noteq> CHR 0x22) r' in
         if v \<noteq> [] \<and> starts_with (drop (length v) r') [CHR 0x22]
         then Some (w, v, length w + 2 + length v + 1) else None)
      else None)"

lemma attribute_at_length:
  "attribute_at s = Some (w, v, k) \<Longrightarrow> 0 < k"
  by (auto simp: attribute_at_def Let_def split: if_splits)

text \<open>\<^verbatim>\<open>re.findall(attribute_pattern, line)\<close>: the matches from left to right, each search
  starting where the previous match ended.\<close>

function findall_attributes :: "string \<Rightarrow> (string \<times> string) list" where
  "findall_attributes [] = []"
| "findall_attributes (c # cs) =
     (case attribute_at (c # cs) of
        None \<Rightarrow> findall_attributes cs
      | Some (w, v, k) \<Rightarrow> (w, v) # findall_attributes (drop k (c # cs)))"
  by pat_completeness auto
termination
  by (relation "measure length") (auto dest: attribute_at_length)

section \<open>\<^verbatim>\<open>extract_custom_annos\<close>\<close>

type_synonym anno = "(string, pyval) dict"

text \<open>The loop over the attributes found on the line (lines 61 to 63).\<close>

fun add_attributes :: "(string \<times> string) list \<Rightarrow> anno \<Rightarrow> anno" where
  "add_attributes [] anno_data = anno_data"
| "add_attributes ((attr_name, attr_value) # attributes) anno_data =
     (if attr_name \<notin> set [''xmi:id'', ''begin'', ''end'', ''sofa'']
      then add_attributes attributes (dict_set attr_name (PStr attr_value) anno_data)
      else add_attributes attributes anno_data)"

text \<open>\<^verbatim>\<open>int(match.group(1))\<close>.\<close>

definition int_of_group :: "string \<Rightarrow> error + int" where
  "int_of_group g = (case py_int g of None \<Rightarrow> Inl ValueError | Some i \<Rightarrow> Inr i)"

text \<open>The record built from one line (lines 47 to 63): \<open>Inr None\<close> when one of the four
  probes fails and the line is skipped.\<close>

definition anno_of_line :: "string \<Rightarrow> error + anno option" where
  "anno_of_line xmi_line =
     (case (re_search label_at xmi_line,
            re_search (digits_attr_at ''xmi:id'') xmi_line,
            re_search (digits_attr_at ''begin'') xmi_line,
            re_search (digits_attr_at ''end'') xmi_line) of
        (Some label, Some xmi_id, Some b, Some e) \<Rightarrow>
          (case int_of_group b of Inl err \<Rightarrow> Inl err
           | Inr bi \<Rightarrow>
          (case int_of_group e of Inl err \<Rightarrow> Inl err
           | Inr ei \<Rightarrow>
             Inr (Some (add_attributes (findall_attributes xmi_line)
                    [(''xmi_id'', PStr xmi_id), (''begin'', PInt bi), (''end'', PInt ei),
                     (''label'', PStr label)]))))
      | _ \<Rightarrow> Inr None)"

text \<open>The loop over the lines (lines 40 to 65); \<open>annos\<close> is keyed by the record's
  \<^verbatim>\<open>"xmi_id"\<close> entry.\<close>

fun collect_annos :: "string list \<Rightarrow> (pyval, anno) dict \<Rightarrow> error + (pyval, anno) dict" where
  "collect_annos [] annos = Inr annos"
| "collect_annos (xmi_line # ls) annos =
     (case anno_of_line xmi_line of
        Inl err \<Rightarrow> Inl err
      | Inr None \<Rightarrow> collect_annos ls annos
      | Inr (Some anno_data) \<Rightarrow>
          (case dict_item anno_data ''xmi_id'' of
             Inl err \<Rightarrow> Inl err
           | Inr key \<Rightarrow> collect_annos ls (dict_set key anno_data annos)))"

definition is_ner :: "anno \<Rightarrow> bool" where
  "is_ner v = (\<not> dict_has v ''Dependent'' \<and> \<not> dict_has v ''Governor'')"

definition is_relation :: "anno \<Rightarrow> bool" where
  "is_relation v = (dict_has v ''Dependent'' \<and> dict_has v ''Governor'')"

definition raw_annos :: "string \<Rightarrow> error + (pyval, anno) dict" where
  "raw_annos xmi_content = collect_annos (split_nl xmi_content) []"

definition extract_custom_annos :: "string \<Rightarrow> error + ((pyval, anno) dict \<times> (pyval, anno) dict)" where
  "extract_custom_annos xmi_content =
     (case raw_annos xmi_content of
        Inl err \<Rightarrow> Inl err
      | Inr annos \<Rightarrow>
          Inr (filter (\<lambda>(k, v). is_ner v) annos, filter (\<lambda>(k, v). is_relation v) annos))"

section \<open>\<^verbatim>\<open>extract_tokens_from_xmi\<close>\<close>

text \<open>
  \<^verbatim>\<open>ET.fromstring\<close> is the library's XML parser. Its result is an input of the model: the
  attributes of the first \<^verbatim>\<open>Sofa\<close> element (if there is one) and the attributes of the
  \<^verbatim>\<open>Token\<close> elements in document order, each as \<^verbatim>\<open>element.get\<close> reads them; \<open>None\<close> for
  the whole tree stands for content the parser rejects with \<^verbatim>\<open>ParseError\<close>.
\<close>

type_synonym element = "(string, string) dict"

record xmi_tree =
  sofa_element :: "element option"
  token_elements :: "element list"

record token =
  tok_xmi_id :: "string option"
  tok_begin :: int
  tok_end :: int
  tok_text :: string

text \<open>\<^verbatim>\<open>sofa_element.get("sofaString") if sofa_element is not None else ""\<close>.\<close>

definition sofa_string :: "xmi_tree \<Rightarrow> string option" where
  "sofa_string root =
     (case sofa_element root of None \<Rightarrow> Some [] | Some el \<Rightarrow> dict_get el ''sofaString'')"

text \<open>\<^verbatim>\<open>s[b:e]\<close>: a negative index counts from the end, and both are clipped to the
  string.\<close>

definition slice_index :: "int \<Rightarrow> nat \<Rightarrow> nat" where
  "slice_index i n = (if i < 0 then nat (max 0 (i + int n)) else min (nat i) n)"

definition py_slice :: "string \<Rightarrow> int \<Rightarrow> int \<Rightarrow> string" where
  "py_slice s b e =
     (let lo = slice_index b (length s); hi = slice_index e (length s)
      in take (hi - lo) (drop lo s))"

text \<open>\<^verbatim>\<open>re.sub(r'\s+', ' ', s)\<close>: every run of whitespace becomes one space.\<close>

function collapse_ws :: "string \<Rightarrow> string" where
  "collapse_ws [] = []"
| "collapse_ws (c # cs) =
     (if is_space c then CHR '' '' # collapse_ws (dropWhile is_space cs)
      else c # collapse_ws cs)"
  by pat_completeness auto
termination
  by (relation "measure length") (auto simp: length_dropWhile_le less_Suc_eq_le)

text \<open>The loop over the token elements (lines 19 to 30).\<close>

fun collect_tokens ::
  "string option \<Rightarrow> element list \<Rightarrow> token list \<Rightarrow> (int \<times> int, string) dict
   \<Rightarrow> error + (token list \<times> (int \<times> int, string) dict)" where
  "collect_tokens sofa_text [] tokens token_lookup = Inr (tokens, token_lookup)"
| "collect_tokens sofa_text (el # els) tokens token_lookup =
     (case int_of_attr (dict_get el ''begin'') of Inl err \<Rightarrow> Inl err
      | Inr b \<Rightarrow>
     (case int_of_attr (dict_get el ''end'') of Inl err \<Rightarrow> Inl err
      | Inr e \<Rightarrow>
     (case sofa_text of None \<Rightarrow> Inl TypeError
      | Some text \<Rightarrow>
          (let token_text = collapse_ws (strip (py_slice text b e)) in
           if token_text = [] then collect_tokens sofa_text els tokens token_lookup
           else collect_tokens sofa_text els
                  (tokens @ [\<lparr>tok_xmi_id = dict_get el ''xmi:id'', tok_begin = b, tok_end = e,
                              tok_text = token_text\<rparr>])
                  (dict_set (b, e) token_text token_lookup)))))"

definition extract_tokens_from_xmi ::
  "xmi_tree option \<Rightarrow> error + (token list \<times> (int \<times> int, string) dict)" where
  "extract_tokens_from_xmi xml =
     (case xml of None \<Rightarrow> Inl ParseError
      | Some root \<Rightarrow> collect_tokens (sofa_string root) (token_elements root) [] [])"

section \<open>\<^verbatim>\<open>map_tokens_to_spans\<close> and \<^verbatim>\<open>map_relationships\<close>\<close>

text \<open>\<^verbatim>\<open>v <= i\<close> and \<^verbatim>\<open>i <= v\<close> for an integer \<open>i\<close> and a dictionary value \<open>v\<close>: comparing
  an integer with a string is a \<^verbatim>\<open>TypeError\<close>.\<close>

definition val_le_int :: "pyval \<Rightarrow> int \<Rightarrow> error + bool" where
  "val_le_int v i = (case v of PInt j \<Rightarrow> Inr (j \<le> i) | PStr s \<Rightarrow> Inl TypeError)"

definition int_le_val :: "int \<Rightarrow> pyval \<Rightarrow> error + bool" where
  "int_le_val i v = (case v of PInt j \<Rightarrow> Inr (i \<le> j) | PStr s \<Rightarrow> Inl TypeError)"

text \<open>The chained comparison \<^verbatim>\<open>span["begin"] <= token["begin"] <= span["end"]\<close>: the
  right half is evaluated only when the left half holds.\<close>

definition starts_inside :: "anno \<Rightarrow> token \<Rightarrow> error + bool" where
  "starts_inside span t =
     (case dict_item span ''begin'' of Inl err \<Rightarrow> Inl err
      | Inr b \<Rightarrow>
     (case val_le_int b (tok_begin t) of Inl err \<Rightarrow> Inl err
      | Inr False \<Rightarrow> Inr False
      | Inr True \<Rightarrow>
     (case dict_item span ''end'' of Inl err \<Rightarrow> Inl err
      | Inr e \<Rightarrow> int_le_val (tok_begin t) e)))"

text \<open>The list comprehension of line 77.\<close>

fun span_tokens :: "anno \<Rightarrow> token list \<Rightarrow> error + string list" where
  "span_tokens span [] = Inr []"
| "span_tokens span (t # ts) =
     (case starts_inside span t of Inl err \<Rightarrow> Inl err
      | Inr inside \<Rightarrow>
     (case span_tokens span ts of Inl err \<Rightarrow> Inl err
      | Inr rest \<Rightarrow> Inr (if inside then tok_text t # rest else rest)))"

text \<open>The loop over \<^verbatim>\<open>spans.values()\<close> (lines 76 to 78); each span gains its
  \<^verbatim>\<open>"token"\<close> entry.\<close>

fun map_spans :: "token list \<Rightarrow> (pyval, anno) dict \<Rightarrow> error + (pyval, anno) dict" where
  "map_spans tokens [] = Inr []"
| "map_spans tokens ((k, span) # spans) =
     (case span_tokens span tokens of Inl err \<Rightarrow> Inl err
      | Inr found \<Rightarrow>
     (case map_spans tokens spans of Inl err \<Rightarrow> Inl err
      | Inr rest \<Rightarrow>
          Inr ((k, dict_set ''token''
                     (PStr (if found \<noteq> [] then join '' '' found else ''UNKNOWN'')) span) # rest)))"

definition map_tokens_to_spans ::
  "token list \<Rightarrow> (int \<times> int, string) dict \<Rightarrow> (pyval, anno) dict \<Rightarrow> error + (pyval, anno) dict" where
  "map_tokens_to_spans tokens token_lookup spans = map_spans tokens spans"

record relationship =
  rel_xmi_id :: pyval
  rel_label :: pyval
  rel_dep :: pyval
  rel_gov :: pyval

text \<open>\<^verbatim>\<open>ners.get(ref, {}).get("token", "UNKNOWN")\<close>, where \<open>ref\<close> is the result of
  \<^verbatim>\<open>rel.get(...)\<close>; \<^verbatim>\<open>None\<close> is no key of \<open>ners\<close>.\<close>

definition resolve :: "(pyval, anno) dict \<Rightarrow> pyval option \<Rightarrow> pyval" where
  "resolve ners ref =
     (case ref of None \<Rightarrow> PStr ''UNKNOWN''
      | Some k \<Rightarrow>
          (case dict_get ners k of None \<Rightarrow> PStr ''UNKNOWN''
           | Some span \<Rightarrow>
               (case dict_get span ''token'' of None \<Rightarrow> PStr ''UNKNOWN'' | Some t \<Rightarrow> t)))"

fun map_relationships ::
  "(pyval, anno) dict \<Rightarrow> (pyval, anno) dict \<Rightarrow> error + relationship list" where
  "map_relationships [] ners = Inr []"
| "map_relationships ((k, rel) # relations) ners =
     (case dict_item rel ''xmi_id'' of Inl err \<Rightarrow> Inl err
      | Inr i \<Rightarrow>
     (case dict_item rel ''label'' of Inl err \<Rightarrow> Inl err
      | Inr l \<Rightarrow>
     (case map_relationships relations ners of Inl err \<Rightarrow> Inl err
      | Inr rest \<Rightarrow>
          Inr (\<lparr>rel_xmi_id = i, rel_label = l,
                rel_dep = resolve ners (dict_get rel ''Dependent''),
                rel_gov = resolve ners (dict_get rel ''Governor'')\<rparr> # rest))))"

section \<open>\<^verbatim>\<open>process_xmi_file\<close>\<close>

text \<open>
  The file at \<^verbatim>\<open>xmi_path\<close>: \<open>None\<close> when it does not exist, otherwise its content
  together with what the XML parser makes of that content. The result is what is
  written to the two JSON files, \<open>None\<close> when the function returns without writing.
\<close>

record xmi_file =
  content :: string
  parsed :: "xmi_tree option"

definition process_xmi_file ::
  "xmi_file option \<Rightarrow> error + ((pyval, anno) dict \<times> relationship list) option" where
  "process_xmi_file file =
     (case file of None \<Rightarrow> Inr None
      | Some f \<Rightarrow>
     (case extract_tokens_from_xmi (parsed f) of Inl err \<Rightarrow> Inl err
      | Inr (tokens, token_lookup) \<Rightarrow>
     (case extract_custom_annos (content f) of Inl err \<Rightarrow> Inl err
      | Inr (ners, relations) \<Rightarrow>
     (case map_tokens_to_spans tokens token_lookup ners of Inl err \<Rightarrow> Inl err
      | Inr ners_spans \<Rightarrow>
     (case map_relationships relations ners_spans of Inl err \<Rightarrow> Inl err
      | Inr relationships \<Rightarrow> Inr (Some (ners_spans, relationships)))))))"

section \<open>\<^verbatim>\<open>convert_to_conll\<close>\<close>

text \<open>\<^verbatim>\<open>extract_sofa_string\<close> parses the content again and reads the same attribute.\<close>

definition extract_sofa_string :: "xmi_tree option \<Rightarrow> error + string option" where
  "extract_sofa_string xml =
     (case xml of None \<Rightarrow> Inl ParseError | Some root \<Rightarrow> Inr (sofa_string root))"

text \<open>\<^verbatim>\<open>text.split()\<close>: the maximal runs of characters that are not whitespace.\<close>

function split_ws :: "string \<Rightarrow> string list" where
  "split_ws s =
     (case dropWhile is_space s of [] \<Rightarrow> []
      | c # cs \<Rightarrow>
          takeWhile (\<lambda>x. \<not> is_space x) (c # cs)
          # split_ws (dropWhile (\<lambda>x. \<not> is_space x) (c # cs)))"
  by pat_completeness auto

lemma split_ws_terminates:
  assumes "dropWhile is_space s = c # cs"
  shows "length (dropWhile (\<lambda>x. \<not> is_space x) (c # cs)) < length s"
proof -
  have "\<not> is_space c"
    using assms hd_dropWhile [of is_space s] by fastforce
  then have "length (dropWhile (\<lambda>x. \<not> is_space x) (c # cs)) \<le> length cs"
    by (simp add: length_dropWhile_le)
  moreover have "length (c # cs) \<le> length s"
    using assms length_dropWhile_le [of is_space s] by simp
  ultimately show ?thesis by simp
qed

termination split_ws
  by (relation "measure length") (auto dest: split_ws_terminates)

declare split_ws.simps [simp del]

text \<open>\<^verbatim>\<open>text.find(sub, start)\<close>: the lowest index at or after \<open>start\<close> where \<open>sub\<close> occurs,
  \<open>-1\<close> when there is none. \<open>find_in sub rest i\<close> searches \<open>rest\<close>, the text from index \<open>i\<close>
  on. A negative \<open>start\<close> counts from the end of the text.\<close>

fun find_in :: "string \<Rightarrow> string \<Rightarrow> nat \<Rightarrow> int" where
  "find_in sub [] i = (if sub = [] then int i else - 1)"
| "find_in sub (c # cs) i =
     (if starts_with (c # cs) sub then int i else find_in sub cs (Suc i))"

definition py_find :: "string \<Rightarrow> string \<Rightarrow> int \<Rightarrow> int" where
  "py_find text sub start =
     (let st = (if start < 0 then nat (max 0 (start + int (length text))) else nat start)
      in if length text < st then - 1 else find_in sub (drop st text) st)"

text \<open>The loop that locates the tokens (lines 35 to 39); \<open>current_index\<close> is the cursor.\<close>

fun token_offsets :: "string \<Rightarrow> string list \<Rightarrow> int \<Rightarrow> (string \<times> int \<times> int) list" where
  "token_offsets text [] current_index = []"
| "token_offsets text (tok # tokens) current_index =
     (let start_index = py_find text tok current_index;
          end_index = start_index + int (length tok)
      in (tok, start_index, end_index) # token_offsets text tokens end_index)"

text \<open>\<^verbatim>\<open>{t[1]: "O" for t in token_data}\<close>.\<close>

fun init_labels :: "(string \<times> int \<times> int) list \<Rightarrow> (int, string) dict \<Rightarrow> (int, string) dict" where
  "init_labels [] token_labels = token_labels"
| "init_labels ((tok, start_idx, end_idx) # token_data) token_labels =
     init_labels token_data (dict_set start_idx ''O'' token_labels)"

text \<open>\<^verbatim>\<open>start_idx >= begin and end_idx <= end\<close>: the right half is evaluated only when the
  left half holds.\<close>

definition contained :: "int \<Rightarrow> int \<Rightarrow> pyval \<Rightarrow> pyval \<Rightarrow> error + bool" where
  "contained start_idx end_idx b e =
     (case val_le_int b start_idx of Inl err \<Rightarrow> Inl err
      | Inr False \<Rightarrow> Inr False
      | Inr True \<Rightarrow> int_le_val end_idx e)"

text \<open>The inner loop over the tokens for one span (lines 50 to 56).\<close>

fun tag_tokens ::
  "pyval \<Rightarrow> pyval \<Rightarrow> pyval \<Rightarrow> (string \<times> int \<times> int) list \<Rightarrow> bool \<Rightarrow> (int, string) dict
   \<Rightarrow> error + (int, string) dict" where
  "tag_tokens label b e [] inside_entity token_labels = Inr token_labels"
| "tag_tokens label b e ((tok, start_idx, end_idx) # token_data) inside_entity token_labels =
     (case contained start_idx end_idx b e of Inl err \<Rightarrow> Inl err
      | Inr False \<Rightarrow> tag_tokens label b e token_data inside_entity token_labels
      | Inr True \<Rightarrow>
          (case py_format label of Inl err \<Rightarrow> Inl err
           | Inr l \<Rightarrow>
               if \<not> inside_entity
               then tag_tokens label b e token_data True
                      (dict_set start_idx (''B-'' @ l) token_labels)
               else tag_tokens label b e token_data inside_entity
                      (dict_set start_idx (''I-'' @ l) token_labels)))"

text \<open>The loop over \<^verbatim>\<open>ners_spans.values()\<close> (lines 44 to 56).\<close>

fun tag_spans ::
  "anno list \<Rightarrow> (string \<times> int \<times> int) list \<Rightarrow> (int, string) dict \<Rightarrow> error + (int, string) dict" where
  "tag_spans [] token_data token_labels = Inr token_labels"
| "tag_spans (span # spans) token_data token_labels =
     (case dict_item span ''label'' of Inl err \<Rightarrow> Inl err
      | Inr label \<Rightarrow>
     (case dict_item span ''begin'' of Inl err \<Rightarrow> Inl err
      | Inr b \<Rightarrow>
     (case dict_item span ''end'' of Inl err \<Rightarrow> Inl err
      | Inr e \<Rightarrow>
     (case tag_tokens label b e token_data False token_labels of Inl err \<Rightarrow> Inl err
      | Inr token_labels' \<Rightarrow> tag_spans spans token_data token_labels'))))"

text \<open>The output lines (lines 59 and 60). The f-string renders the token, the two
  offsets and then the label that it looks up.\<close>

fun conll_lines :: "(string \<times> int \<times> int) list \<Rightarrow> (int, string) dict \<Rightarrow> error + string list" where
  "conll_lines [] token_labels = Inr []"
| "conll_lines ((tok, start_idx, end_idx) # token_data) token_labels =
     (case format_int start_idx of Inl err \<Rightarrow> Inl err
      | Inr s \<Rightarrow>
     (case format_int end_idx of Inl err \<Rightarrow> Inl err
      | Inr e \<Rightarrow>
     (case dict_item token_labels start_idx of Inl err \<Rightarrow> Inl err
      | Inr l \<Rightarrow>
     (case conll_lines token_data token_labels of Inl err \<Rightarrow> Inl err
      | Inr rest \<Rightarrow> Inr ((tok @ '' '' @ s @ '' '' @ e @ '' '' @ l) # rest)))))"

text \<open>The token table of lines 27 to 39 and the labels of lines 42 to 56.\<close>

definition token_data_of :: "string \<Rightarrow> (string \<times> int \<times> int) list" where
  "token_data_of text = token_offsets text (split_ws text) 0"

definition bio_labels :: "string \<Rightarrow> (pyval, anno) dict \<Rightarrow> error + (int, string) dict" where
  "bio_labels text ners_spans =
     tag_spans (dict_values ners_spans) (token_data_of text) (init_labels (token_data_of text) [])"

text \<open>\<^verbatim>\<open>text.split()\<close> on \<^verbatim>\<open>None\<close> is an \<^verbatim>\<open>AttributeError\<close>.\<close>

definition convert_to_conll :: "xmi_tree option \<Rightarrow> (pyval, anno) dict \<Rightarrow> error + string" where
  "convert_to_conll xml ners_spans =
     (case extract_sofa_string xml of Inl err \<Rightarrow> Inl err
      | Inr None \<Rightarrow> Inl AttributeError
      | Inr (Some text) \<Rightarrow>
     (case bio_labels text ners_spans of Inl err \<Rightarrow> Inl err
      | Inr token_labels \<Rightarrow>
     (case conll_lines (token_data_of text) token_labels of Inl err \<Rightarrow> Inl err
      | Inr conll_output \<Rightarrow> Inr (join [CHR 0x0A] conll_output))))"

definition process_xmi_to_conll :: "xmi_file option \<Rightarrow> error + string option" where
  "process_xmi_to_conll file =
     (case file of None \<Rightarrow> Inr None
      | Some f \<Rightarrow>
     (case extract_tokens_from_xmi (parsed f) of Inl err \<Rightarrow> Inl err
      | Inr (tokens, token_lookup) \<Rightarrow>
     (case extract_custom_annos (content f) of Inl err \<Rightarrow> Inl err
      | Inr (ners, relations) \<Rightarrow>
     (case map_tokens_to_spans tokens token_lookup ners of Inl err \<Rightarrow> Inl err
      | Inr ners_spans \<Rightarrow>
     (case convert_to_conll (parsed f) ners_spans of Inl err \<Rightarrow> Inl err
      | Inr conll_data \<Rightarrow> Inr (Some conll_data))))))"

section \<open>The specification's words for the derived fields\<close>

text \<open>
  The derived text of a span as the specification words it: the texts of the tokens
  whose \<^verbatim>\<open>begin\<close> lies in the closed interval from the span's \<^verbatim>\<open>begin\<close> to its \<^verbatim>\<open>end\<close>, in
  token order, joined by single spaces, and \<^verbatim>\<open>UNKNOWN\<close> when there is no such token.
\<close>

definition span_preview :: "int \<Rightarrow> int \<Rightarrow> token list \<Rightarrow> string" where
  "span_preview b e tokens =
     (let found = map tok_text (filter (\<lambda>t. b \<le> tok_begin t \<and> tok_begin t \<le> e) tokens)
      in if found = [] then ''UNKNOWN'' else join '' '' found)"

text \<open>
  One side of a relationship as the specification words it: \<open>ref\<close> is the value of the
  record's \<^verbatim>\<open>Dependent\<close> or \<^verbatim>\<open>Governor\<close> attribute (\<open>None\<close> when the record has none) and
  \<open>txt\<close> the text it resolves to. An identifier that is present in the entity span
  mapping resolves to that span's derived token text; one that is absent, or whose span
  has no derived text, resolves to \<^verbatim>\<open>UNKNOWN\<close>.
\<close>

definition resolved :: "(pyval, anno) dict \<Rightarrow> pyval option \<Rightarrow> pyval \<Rightarrow> bool" where
  "resolved ners ref txt \<longleftrightarrow>
     (\<forall>d span t. ref = Some d \<and> dict_get ners d = Some span \<and> dict_get span ''token'' = Some t
        \<longrightarrow> txt = t)
   \<and> (ref = None
       \<or> (\<exists>d. ref = Some d
              \<and> (dict_get ners d = None
                 \<or> (\<exists>span. dict_get ners d = Some span \<and> dict_get span ''token'' = None)))
        \<longrightarrow> txt = PStr ''UNKNOWN'')"

text \<open>
  The BIO labels as the specification words them. A token of the table is inside a span
  when its start and its end offset both lie in the closed interval from the span's
  \<^verbatim>\<open>begin\<close> to its \<^verbatim>\<open>end\<close>. A span tags the first token inside it \<^verbatim>\<open>B-label\<close> and every
  other token inside it \<^verbatim>\<open>I-label\<close>. A token inside no span is labelled \<^verbatim>\<open>O\<close>; a token
  inside several spans carries the tag of the last of them in the order of the mapping.
  \<open>span_fields\<close> reads the three entries of a span record that the tagger uses: the
  label, a string, and the two offsets, integers.
\<close>

definition span_fields :: "anno \<Rightarrow> (string \<times> int \<times> int) option" where
  "span_fields span =
     (case (dict_get span ''label'', dict_get span ''begin'', dict_get span ''end'') of
        (Some (PStr l), Some (PInt b), Some (PInt e)) \<Rightarrow> Some (l, b, e)
      | _ \<Rightarrow> None)"

definition inside_span :: "int \<Rightarrow> int \<Rightarrow> string \<times> int \<times> int \<Rightarrow> bool" where
  "inside_span b e x =
     (b \<le> fst (snd x) \<and> fst (snd x) \<le> e \<and> b \<le> snd (snd x) \<and> snd (snd x) \<le> e)"

definition span_tag ::
  "(string \<times> int \<times> int) list \<Rightarrow> string \<times> int \<times> int \<Rightarrow> string \<times> int \<times> int \<Rightarrow> string" where
  "span_tag token_data f x =
     (case f of (l, b, e) \<Rightarrow>
        (if find (inside_span b e) token_data = Some x then ''B-'' else ''I-'') @ l)"

definition bio_label ::
  "(string \<times> int \<times> int) list \<Rightarrow> (string \<times> int \<times> int) list \<Rightarrow> string \<times> int \<times> int \<Rightarrow> string" where
  "bio_label token_data triples x =
     (case filter (\<lambda>(l, b, e). inside_span b e x) triples of
        [] \<Rightarrow> ''O''
      | f # fs \<Rightarrow> span_tag token_data (last (f # fs)) x)"

section \<open>Facts about dictionaries\<close>

lemma dict_get_set:
  "dict_get (dict_set k v d) k' = (if k' = k then Some v else dict_get d k')"
  by (induction d) (auto simp: dict_get_def)

lemma dict_set_key_list:
  "map fst (dict_set k v d) = (if k \<in> fst ` set d then map fst d else map fst d @ [k])"
  by (induction d) (fastforce simp: image_iff)+


lemma distinct_dict_set:
  "distinct (map fst d) \<Longrightarrow> distinct (map fst (dict_set k v d))"
  by (simp add: dict_set_key_list)

lemma dict_get_filter:
  "distinct (map fst d) \<Longrightarrow>
   dict_get (filter (\<lambda>(k, v). P v) d) k =
     (case dict_get d k of None \<Rightarrow> None | Some v \<Rightarrow> if P v then Some v else None)"
proof (induction d)
  case Nil
  then show ?case by (simp add: dict_get_def)
next
  case (Cons p d)
  obtain k' v' where p: "p = (k', v')" by (cases p)
  from Cons.prems p have notin: "k' \<notin> fst ` set d" and dist: "distinct (map fst d)"
    by auto
  from notin have none: "map_of d k' = None"
    by (simp add: map_of_eq_None_iff)
  show ?case
    using Cons.IH [OF dist] none p
    by (auto simp: dict_get_def split: option.splits)
qed

section \<open>The partition into entity spans and relationships\<close>

lemma collect_annos_distinct:
  "collect_annos ls annos = Inr annos' \<Longrightarrow> distinct (map fst annos)
   \<Longrightarrow> distinct (map fst annos')"
proof (induction ls arbitrary: annos)
  case Nil
  then show ?case by simp
next
  case (Cons l ls)
  then show ?case
    by (auto split: sum.splits option.splits simp: distinct_dict_set)
qed

lemma raw_annos_distinct: "raw_annos c = Inr annos \<Longrightarrow> distinct (map fst annos)"
  unfolding raw_annos_def using collect_annos_distinct [of _ "[]"] by simp

text \<open>
  C1 (as the code has it). Every record of the identifier-keyed mapping \<open>annos\<close> is in at
  most one of the two output mappings: in \<open>relations\<close> exactly when it has both a
  \<^verbatim>\<open>Dependent\<close> and a \<^verbatim>\<open>Governor\<close> entry, in \<open>ners\<close> exactly when it has neither. The
  partition is mutually exclusive but not exhaustive: a record with exactly one of the
  two entries is in neither mapping.
\<close>

theorem custom_annos_partition:
  assumes "raw_annos xmi_content = Inr annos" and "dict_get annos k = Some v"
  shows "\<exists>ners relations. extract_custom_annos xmi_content = Inr (ners, relations)
     \<and> (dict_get relations k = Some v \<longleftrightarrow> dict_has v ''Dependent'' \<and> dict_has v ''Governor'')
     \<and> (dict_get ners k = Some v \<longleftrightarrow> \<not> dict_has v ''Dependent'' \<and> \<not> dict_has v ''Governor'')
     \<and> (dict_get relations k = None \<or> dict_get ners k = None)
     \<and> (dict_get relations k = None \<and> dict_get ners k = None
          \<longleftrightarrow> dict_has v ''Dependent'' \<noteq> dict_has v ''Governor'')"
proof -
  have d: "distinct (map fst annos)"
    using assms(1) by (rule raw_annos_distinct)
  show ?thesis
    using assms
    by (auto simp: extract_custom_annos_def dict_get_filter [OF d] is_ner_def is_relation_def)
qed

text \<open>The theorem at a document with one entity line and one relationship line.\<close>

theorem custom_annos_partition_witness:
  \<open>\<exists>ners relations.
     extract_custom_annos
       ''<custom:Ent xmi:id="5" begin="0" end="3"/>\<newline><custom:Rel xmi:id="7" begin="0" end="9" Dependent="5" Governor="6"/>''
       = Inr (ners, relations)
     \<and> dict_get relations (PStr ''7'')
         = Some [(''xmi_id'', PStr ''7''), (''begin'', PInt 0), (''end'', PInt 9),
                 (''label'', PStr ''Rel''), (''id'', PStr ''7''),
                 (''Dependent'', PStr ''5''), (''Governor'', PStr ''6'')]
     \<and> dict_get ners (PStr ''7'') = None\<close>
proof -
  let ?c = \<open>''<custom:Ent xmi:id="5" begin="0" end="3"/>\<newline><custom:Rel xmi:id="7" begin="0" end="9" Dependent="5" Governor="6"/>''\<close>
  let ?e = "[(''xmi_id'', PStr ''5''), (''begin'', PInt 0), (''end'', PInt 3),
             (''label'', PStr ''Ent''), (''id'', PStr ''5'')]"
  let ?r = "[(''xmi_id'', PStr ''7''), (''begin'', PInt 0), (''end'', PInt 9),
             (''label'', PStr ''Rel''), (''id'', PStr ''7''),
             (''Dependent'', PStr ''5''), (''Governor'', PStr ''6'')]"
  have a: "raw_annos ?c = Inr [(PStr ''5'', ?e), (PStr ''7'', ?r)]"
    by code_simp
  have b: "dict_get [(PStr ''5'', ?e), (PStr ''7'', ?r)] (PStr ''7'') = Some ?r"
    by code_simp
  have c: "dict_has ?r ''Dependent'' \<and> dict_has ?r ''Governor''"
    by code_simp
  from custom_annos_partition [OF a b] obtain ners relations where
    e: "extract_custom_annos ?c = Inr (ners, relations)" and
    r: "dict_get relations (PStr ''7'') = Some ?r
          \<longleftrightarrow> dict_has ?r ''Dependent'' \<and> dict_has ?r ''Governor''" and
    n: "dict_get relations (PStr ''7'') = None \<or> dict_get ners (PStr ''7'') = None"
    by (elim exE conjE)
  from r c have "dict_get relations (PStr ''7'') = Some ?r"
    by (simp only: simp_thms)
  with n have "dict_get ners (PStr ''7'') = None"
    by simp
  with e \<open>dict_get relations (PStr ''7'') = Some ?r\<close> show ?thesis
    by (intro exI conjI)
qed

text \<open>A record with a \<^verbatim>\<open>Dependent\<close> but no \<^verbatim>\<open>Governor\<close> attribute is in the raw mapping
  and in neither output mapping.\<close>

theorem custom_annos_partition_counterexample:
  \<open>raw_annos ''<custom:Rel xmi:id="7" begin="0" end="9" Dependent="5"/>''
     = Inr [(PStr ''7'', [(''xmi_id'', PStr ''7''), (''begin'', PInt 0), (''end'', PInt 9),
                          (''label'', PStr ''Rel''), (''id'', PStr ''7''),
                          (''Dependent'', PStr ''5'')])]
   \<and> extract_custom_annos ''<custom:Rel xmi:id="7" begin="0" end="9" Dependent="5"/>''
     = Inr ([], [])\<close>
  by code_simp

section \<open>Facts about the custom annotation extractor\<close>

lemma is_digit_not_int_space: "is_digit c \<Longrightarrow> \<not> is_int_space c"
  by (auto simp: is_digit_def is_int_space_def in_range_def code_point_def)

lemma is_digit_not_sign: "is_digit c \<Longrightarrow> c \<noteq> CHR ''-'' \<and> c \<noteq> CHR ''+''"
  by (auto simp: is_digit_def in_range_def code_point_def)

lemma int_strip_no_space: "\<forall>c\<in>set s. \<not> is_int_space c \<Longrightarrow> int_strip s = s"
proof -
  assume a: "\<forall>c\<in>set s. \<not> is_int_space c"
  have d: "dropWhile is_int_space t = t" if "\<forall>c\<in>set t. \<not> is_int_space c" for t
    using that by (cases t) auto
  from a have "dropWhile is_int_space s = s" by (rule d)
  moreover from a have "dropWhile is_int_space (rev s) = rev s" by (intro d) simp
  ultimately show ?thesis by (simp add: int_strip_def)
qed

lemma parse_digits_all:
  "\<forall>c\<in>set s. is_digit c \<Longrightarrow> \<exists>n. parse_digits acc s = Some n"
  by (induction acc s rule: parse_digits.induct) auto

text \<open>\<^verbatim>\<open>int\<close> on a run of digits, as the probes capture it: the value is a natural number,
  and the only failure is a run of more than 4300 digits.\<close>

lemma py_int_digits:
  assumes "s \<noteq> []" and "\<forall>c\<in>set s. is_digit c"
  shows "if length s \<le> int_max_str_digits then \<exists>n. py_int s = Some (int n) else py_int s = None"
proof -
  from assms obtain c cs where s: "s = c # cs" by (cases s) auto
  from assms(2) have strip: "int_strip s = s"
    by (intro int_strip_no_space) (auto dest: is_digit_not_int_space)
  from s assms(2) have c: "is_digit c" and cs: "\<forall>x\<in>set cs. is_digit x" by auto
  from cs obtain n where n: "parse_digits (digit_val c) cs = Some n"
    using parse_digits_all by blast
  from assms(2) have "filter is_digit s = s" by (simp add: filter_id_conv)
  then have len: "length (filter is_digit (c # cs)) = length s" using s by simp
  have "py_int s = map_option int (parse_nat (c # cs))"
    using strip s is_digit_not_sign [OF c] by (simp add: py_int_def)
  also have "parse_nat (c # cs)
             = (if length s \<le> int_max_str_digits then Some n else None)"
    using c n len by (simp add: parse_nat_def)
  finally show ?thesis by auto
qed

lemma re_search_Some: "re_search m s = Some g \<Longrightarrow> \<exists>t. m t = Some g"
  by (induction s) (auto split: option.splits)

lemma digits_attr_at_digits:
  "digits_attr_at name s = Some ds \<Longrightarrow> ds \<noteq> [] \<and> (\<forall>c\<in>set ds. is_digit c)"
  by (auto simp: digits_attr_at_def Let_def split: if_splits dest: set_takeWhileD)

lemma int_of_group_search:
  assumes "re_search (digits_attr_at name) l = Some ds"
  shows "(\<exists>n. int_of_group ds = Inr (int n))
       \<or> (int_of_group ds = Inl ValueError \<and> int_max_str_digits < length ds)"
proof -
  from re_search_Some [OF assms] obtain t where t: "digits_attr_at name t = Some ds" ..
  from digits_attr_at_digits [OF t] have "ds \<noteq> []" and "\<forall>c\<in>set ds. is_digit c"
    by simp_all
  from py_int_digits [OF this] show ?thesis
    by (cases "length ds \<le> int_max_str_digits") (auto simp: int_of_group_def)
qed

lemma add_attributes_reserved:
  "k \<in> {''begin'', ''end''} \<Longrightarrow> dict_get (add_attributes attrs anno) k = dict_get anno k"
  by (induction attrs anno rule: add_attributes.induct) (auto simp: dict_get_set)

lemma add_attributes_string:
  "dict_get anno k = Some (PStr s) \<Longrightarrow> \<exists>s'. dict_get (add_attributes attrs anno) k = Some (PStr s')"
proof (induction attrs anno arbitrary: s rule: add_attributes.induct)
  case (1 anno_data)
  then show ?case by simp
next
  case (2 attr_name attr_value attributes anno_data)
  show ?case
  proof (cases "attr_name \<notin> set [''xmi:id'', ''begin'', ''end'', ''sofa'']")
    case True
    have "\<exists>t. dict_get (dict_set attr_name (PStr attr_value) anno_data) k = Some (PStr t)"
      using "2.prems" by (simp add: dict_get_set)
    then obtain t where "dict_get (dict_set attr_name (PStr attr_value) anno_data) k = Some (PStr t)"
      by blast
    from "2.IH"(1) [OF True this] True show ?thesis by simp
  next
    case False
    from "2.IH"(2) [OF False "2.prems"] False show ?thesis by simp
  qed
qed

text \<open>The three outcomes of a line: it is skipped, \<^verbatim>\<open>int\<close> raises on an offset of more
  than 4300 digits, or it yields a record.\<close>

lemma anno_of_line_cases:
  obtains (skipped) "anno_of_line l = Inr None"
  | (failed) g where "anno_of_line l = Inl ValueError"
      "re_search (digits_attr_at ''begin'') l = Some g
       \<or> re_search (digits_attr_at ''end'') l = Some g"
      "int_max_str_digits < length g"
  | (accepted) label xmi_id b e where
      "anno_of_line l = Inr (Some (add_attributes (findall_attributes l)
          [(''xmi_id'', PStr xmi_id), (''begin'', PInt (int b)), (''end'', PInt (int e)),
           (''label'', PStr label)]))"
      "re_search label_at l = Some label"
      "re_search (digits_attr_at ''xmi:id'') l = Some xmi_id"
proof (cases "re_search label_at l")
  case None
  then have "anno_of_line l = Inr None" by (simp add: anno_of_line_def)
  then show ?thesis by (rule skipped)
next
  case l: (Some label)
  show ?thesis
  proof (cases "re_search (digits_attr_at ''xmi:id'') l")
    case None
    with l have "anno_of_line l = Inr None" by (simp add: anno_of_line_def)
    then show ?thesis by (rule skipped)
  next
    case i: (Some xmi_id)
    show ?thesis
    proof (cases "re_search (digits_attr_at ''begin'') l")
      case None
      with l i have "anno_of_line l = Inr None" by (simp add: anno_of_line_def)
      then show ?thesis by (rule skipped)
    next
      case b: (Some bs)
      show ?thesis
      proof (cases "re_search (digits_attr_at ''end'') l")
        case None
        with l i b have "anno_of_line l = Inr None" by (simp add: anno_of_line_def)
        then show ?thesis by (rule skipped)
      next
        case e: (Some es)
        from int_of_group_search [OF b] show ?thesis
        proof
          assume "int_of_group bs = Inl ValueError \<and> int_max_str_digits < length bs"
          with l i b e have "anno_of_line l = Inl ValueError" "int_max_str_digits < length bs"
            by (simp_all add: anno_of_line_def)
          with b show ?thesis by (intro failed [of bs]) simp_all
        next
          assume "\<exists>n. int_of_group bs = Inr (int n)"
          then obtain bn where bn: "int_of_group bs = Inr (int bn)" ..
          from int_of_group_search [OF e] show ?thesis
          proof
            assume "int_of_group es = Inl ValueError \<and> int_max_str_digits < length es"
            with l i b e bn have "anno_of_line l = Inl ValueError" "int_max_str_digits < length es"
              by (simp_all add: anno_of_line_def)
            with e show ?thesis by (intro failed [of es]) simp_all
          next
            assume "\<exists>n. int_of_group es = Inr (int n)"
            then obtain en where en: "int_of_group es = Inr (int en)" ..
            from l i b e bn en
            have "anno_of_line l = Inr (Some (add_attributes (findall_attributes l)
              [(''xmi_id'', PStr xmi_id), (''begin'', PInt (int bn)), (''end'', PInt (int en)),
               (''label'', PStr label)]))"
              by (simp add: anno_of_line_def)
            then show ?thesis using l i by (rule accepted)
          qed
        qed
      qed
    qed
  qed
qed

lemma anno_of_line_fields:
  assumes "anno_of_line l = Inr (Some r)"
  shows "(\<exists>i. dict_get r ''xmi_id'' = Some (PStr i))
       \<and> (\<exists>lb. dict_get r ''label'' = Some (PStr lb))
       \<and> (\<exists>b e. dict_get r ''begin'' = Some (PInt (int b)) \<and> dict_get r ''end'' = Some (PInt (int e)))"
proof (cases l rule: anno_of_line_cases)
  case skipped
  with assms show ?thesis by simp
next
  case (failed g)
  with assms show ?thesis by simp
next
  case (accepted label xmi_id b e)
  let ?base = "[(''xmi_id'', PStr xmi_id), (''begin'', PInt (int b)), (''end'', PInt (int e)),
           (''label'', PStr label)]"
  from accepted assms have r: "r = add_attributes (findall_attributes l) ?base" by simp
  have "dict_get ?base ''xmi_id'' = Some (PStr xmi_id)" "dict_get ?base ''label'' = Some (PStr label)"
    by (simp_all add: dict_get_def)
  then have "\<exists>i. dict_get r ''xmi_id'' = Some (PStr i)" "\<exists>lb. dict_get r ''label'' = Some (PStr lb)"
    unfolding r by (blast dest: add_attributes_string)+
  moreover have "dict_get r ''begin'' = Some (PInt (int b))" "dict_get r ''end'' = Some (PInt (int e))"
    unfolding r by (simp_all add: add_attributes_reserved) (simp_all add: dict_get_def)
  ultimately show ?thesis by blast
qed

text \<open>One step of the loop over the lines, as the three outcomes of the line.\<close>

lemma collect_annos_step:
  "collect_annos (l # ls) annos =
     (case anno_of_line l of
        Inl err \<Rightarrow> Inl err
      | Inr None \<Rightarrow> collect_annos ls annos
      | Inr (Some r) \<Rightarrow> collect_annos ls (dict_set (the (dict_get r ''xmi_id'')) r annos))"
proof (cases "anno_of_line l")
  case (Inl err)
  then show ?thesis by simp
next
  case (Inr ro)
  show ?thesis
  proof (cases ro)
    case None
    with Inr show ?thesis by simp
  next
    case (Some r)
    with Inr obtain i where "dict_get r ''xmi_id'' = Some (PStr i)"
      using anno_of_line_fields [of l r] by blast
    with Inr Some show ?thesis by (simp add: dict_item_def)
  qed
qed

text \<open>The loop raises only what a line raises.\<close>

lemma collect_annos_error:
  "collect_annos ls annos = Inl err \<Longrightarrow> \<exists>l\<in>set ls. anno_of_line l = Inl err"
proof (induction ls arbitrary: annos)
  case Nil
  then show ?case by simp
next
  case (Cons l ls)
  from Cons.prems show ?case
    unfolding collect_annos_step
    by (auto split: sum.splits option.splits dest: Cons.IH)
qed


lemma collect_annos_lines_ok:
  "collect_annos ls annos = Inr annos' \<Longrightarrow> \<forall>l\<in>set ls. \<forall>err. anno_of_line l \<noteq> Inl err"
proof (induction ls arbitrary: annos)
  case Nil
  then show ?case by simp
next
  case (Cons l ls)
  from Cons.prems show ?case
    unfolding collect_annos_step
    by (auto split: sum.splits option.splits dest: Cons.IH)
qed

lemma dict_set_all:
  "\<forall>(k, v)\<in>set d. P v \<Longrightarrow> P a \<Longrightarrow> \<forall>(k, v)\<in>set (dict_set key a d). P v"
  by (induction d) (auto split: if_splits)

lemma collect_annos_all:
  assumes "collect_annos ls annos = Inr annos'"
    and "\<forall>(k, v)\<in>set annos. P v"
    and "\<And>l r. anno_of_line l = Inr (Some r) \<Longrightarrow> P r"
  shows "\<forall>(k, v)\<in>set annos'. P v"
  using assms(1,2)
proof (induction ls arbitrary: annos)
  case Nil
  then show ?case by simp
next
  case (Cons l ls)
  show ?case
  proof (cases "anno_of_line l")
    case (Inl err)
    with Cons.prems(1) show ?thesis by simp
  next
    case (Inr ro)
    show ?thesis
    proof (cases ro)
      case None
      with Inr Cons show ?thesis by simp
    next
      case (Some a)
      with Inr have Pa: "P a" using assms(3) by simp
      let ?key = "the (dict_get a ''xmi_id'')"
      have "\<forall>(k, v)\<in>set (dict_set ?key a annos). P v"
        using Cons.prems(2) Pa by (rule dict_set_all)
      moreover have "collect_annos ls (dict_set ?key a annos) = Inr annos'"
        using Cons.prems(1) unfolding collect_annos_step by (simp add: Inr Some)
      ultimately show ?thesis
        by (rule Cons.IH [rotated])
    qed
  qed
qed

section \<open>Duplicate identifiers\<close>











section \<open>The attributes captured from a line\<close>

text \<open>
  C2. The attribute pattern \<^verbatim>\<open>(\w+)="([^"]+)"\<close> cannot match a name with a colon, so on
  \<^verbatim>\<open>xmi:id="5"\<close> it captures the name \<^verbatim>\<open>id\<close>. The exclusion list of line 62 holds
  \<^verbatim>\<open>"xmi:id"\<close>, which no captured name can equal, so the record gains the entry
  \<^verbatim>\<open>"id"\<close> derived from the reserved identifier attribute.
\<close>

theorem reserved_identifier_captured:
  \<open>findall_attributes ''<custom:Entity xmi:id="5" sofa="1" begin="0" end="5" value="PER"/>''
     = [(''id'', ''5''), (''sofa'', ''1''), (''begin'', ''0''), (''end'', ''5''), (''value'', ''PER'')]
   \<and> anno_of_line ''<custom:Entity xmi:id="5" sofa="1" begin="0" end="5" value="PER"/>''
     = Inr (Some [(''xmi_id'', PStr ''5''), (''begin'', PInt 0), (''end'', PInt 5),
                  (''label'', PStr ''Entity''), (''id'', PStr ''5''), (''value'', PStr ''PER'')])\<close>
  by code_simp

section \<open>Malformed offsets\<close>

lemma collect_tokens_error:
  assumes "el \<in> set els"
    and "(\<exists>err. int_of_attr (dict_get el ''begin'') = Inl err)
       \<or> (\<exists>err. int_of_attr (dict_get el ''end'') = Inl err)"
  shows "\<exists>err. collect_tokens sofa_text els tokens token_lookup = Inl err"
  using assms(1)
proof (induction els arbitrary: tokens token_lookup)
  case Nil
  then show ?case by simp
next
  case (Cons x xs)
  show ?case
  proof (cases "x = el")
    case True
    with assms(2) show ?thesis
      by (auto split: sum.splits option.splits)
  next
    case False
    with Cons.prems have "el \<in> set xs" by simp
    from Cons.IH [OF this] show ?thesis
      by (auto simp: Let_def split: sum.splits option.splits)
  qed
qed

lemma extract_tokens_error:
  assumes "el \<in> set (token_elements root)"
    and "(\<exists>err. int_of_attr (dict_get el ''begin'') = Inl err)
       \<or> (\<exists>err. int_of_attr (dict_get el ''end'') = Inl err)"
  shows "\<exists>err. extract_tokens_from_xmi (Some root) = Inl err"
  unfolding extract_tokens_from_xmi_def using collect_tokens_error [OF assms] by simp

lemma anno_of_line_skipped:
  "re_search (digits_attr_at ''begin'') l = None \<or> re_search (digits_attr_at ''end'') l = None
   \<Longrightarrow> anno_of_line l = Inr None"
  by (auto simp: anno_of_line_def split: option.splits)

text \<open>The extractor raises only \<^verbatim>\<open>ValueError\<close>, and only on a line where the \<^verbatim>\<open>begin\<close> or
  the \<^verbatim>\<open>end\<close> probe has captured more than 4300 digits.\<close>

lemma extract_custom_annos_error:
  assumes "extract_custom_annos c = Inl err"
  shows "err = ValueError
       \<and> (\<exists>l\<in>set (split_nl c). \<exists>g.
             (re_search (digits_attr_at ''begin'') l = Some g
              \<or> re_search (digits_attr_at ''end'') l = Some g)
             \<and> int_max_str_digits < length g)"
proof -
  from assms have "collect_annos (split_nl c) [] = Inl err"
    by (auto simp: extract_custom_annos_def raw_annos_def split: sum.splits)
  from collect_annos_error [OF this] obtain l where
    l: "l \<in> set (split_nl c)" and e: "anno_of_line l = Inl err"
    by blast
  show ?thesis
  proof (cases l rule: anno_of_line_cases)
    case skipped
    with e show ?thesis by simp
  next
    case (failed g)
    with e l show ?thesis by auto
  next
    case (accepted label xmi_id b e)
    with e show ?thesis by simp
  qed
qed

text \<open>
  C3 (as the code has it). A token element whose \<^verbatim>\<open>begin\<close> or \<^verbatim>\<open>end\<close> attribute is missing or
  is no integer makes the conversion of the file fail with a propagated error, in the
  JSON export and in the CoNLL export, and nothing is written. A custom line on which
  the \<^verbatim>\<open>begin\<close> or the \<^verbatim>\<open>end\<close> probe finds no all-digit value is skipped without an error:
  the extractor raises only \<^verbatim>\<open>ValueError\<close>, and only for an all-digit offset of more than
  4300 digits.
\<close>

theorem malformed_offsets:
  "(\<forall>f root el.
      parsed f = Some root \<and> el \<in> set (token_elements root)
      \<and> ((\<exists>err. int_of_attr (dict_get el ''begin'') = Inl err)
         \<or> (\<exists>err. int_of_attr (dict_get el ''end'') = Inl err))
      \<longrightarrow> (\<exists>err. process_xmi_file (Some f) = Inl err)
        \<and> (\<exists>err. process_xmi_to_conll (Some f) = Inl err))
   \<and> (\<forall>l. re_search (digits_attr_at ''begin'') l = None
            \<or> re_search (digits_attr_at ''end'') l = None
        \<longrightarrow> anno_of_line l = Inr None)
   \<and> (\<forall>c err. extract_custom_annos c = Inl err
        \<longrightarrow> err = ValueError
          \<and> (\<exists>l\<in>set (split_nl c). \<exists>g.
                (re_search (digits_attr_at ''begin'') l = Some g
                 \<or> re_search (digits_attr_at ''end'') l = Some g)
                \<and> int_max_str_digits < length g))"
proof (intro conjI allI impI)
  fix f :: xmi_file and root :: xmi_tree and el :: element
  assume a: "parsed f = Some root \<and> el \<in> set (token_elements root)
      \<and> ((\<exists>err. int_of_attr (dict_get el ''begin'') = Inl err)
         \<or> (\<exists>err. int_of_attr (dict_get el ''end'') = Inl err))"
  then obtain err where "extract_tokens_from_xmi (parsed f) = Inl err"
    using extract_tokens_error [of el root] by auto
  then show "\<exists>err. process_xmi_file (Some f) = Inl err"
    and "\<exists>err. process_xmi_to_conll (Some f) = Inl err"
    by (simp_all add: process_xmi_file_def process_xmi_to_conll_def)
next
  fix l
  assume "re_search (digits_attr_at ''begin'') l = None
            \<or> re_search (digits_attr_at ''end'') l = None"
  then show "anno_of_line l = Inr None" by (rule anno_of_line_skipped)
next
  fix c err
  assume "extract_custom_annos c = Inl err"
  from extract_custom_annos_error [OF this]
  show "err = ValueError" and "\<exists>l\<in>set (split_nl c). \<exists>g.
                (re_search (digits_attr_at ''begin'') l = Some g
                 \<or> re_search (digits_attr_at ''end'') l = Some g)
                \<and> int_max_str_digits < length g"
    by blast+
qed

text \<open>The theorem at a file with a token element whose \<^verbatim>\<open>begin\<close> is \<^verbatim>\<open>x1\<close>, and at a
  custom line whose \<^verbatim>\<open>begin\<close> is \<^verbatim>\<open>abc\<close>.\<close>

theorem malformed_offsets_witness:
  \<open>(\<exists>err. process_xmi_file (Some \<lparr>content =
        ''<xmi:XMI xmlns:xmi="http://www.omg.org/XMI" xmlns:cas="http:///uima/cas.ecore" xmlns:type="http:///de/tudarmstadt/ukp/dkpro/core/api/segmentation/type.ecore">\<newline><cas:Sofa xmi:id="9" sofaString="hello"/>\<newline><type:Token xmi:id="2" sofa="9" begin="x1" end="5"/>\<newline></xmi:XMI>'',
        parsed = Some \<lparr>sofa_element = Some [(''{http://www.omg.org/XMI}id'', ''9''), (''sofaString'', ''hello'')],
                        token_elements = [[(''{http://www.omg.org/XMI}id'', ''2''), (''sofa'', ''9''),
                                           (''begin'', ''x1''), (''end'', ''5'')]]\<rparr>\<rparr>) = Inl err)
   \<and> anno_of_line ''<custom:Ent xmi:id="5" begin="abc" end="5"/>'' = Inr None\<close>
proof -
  let ?el = "[(''{http://www.omg.org/XMI}id'', ''2''), (''sofa'', ''9''),
              (''begin'', ''x1''), (''end'', ''5'')]"
  let ?root = "\<lparr>sofa_element = Some [(''{http://www.omg.org/XMI}id'', ''9''), (''sofaString'', ''hello'')],
                 token_elements = [?el]\<rparr>"
  let ?f = \<open>\<lparr>content =
        ''<xmi:XMI xmlns:xmi="http://www.omg.org/XMI" xmlns:cas="http:///uima/cas.ecore" xmlns:type="http:///de/tudarmstadt/ukp/dkpro/core/api/segmentation/type.ecore">\<newline><cas:Sofa xmi:id="9" sofaString="hello"/>\<newline><type:Token xmi:id="2" sofa="9" begin="x1" end="5"/>\<newline></xmi:XMI>'',
        parsed = Some ?root\<rparr>\<close>
  let ?l = \<open>''<custom:Ent xmi:id="5" begin="abc" end="5"/>''\<close>
  have 1: "parsed ?f = Some ?root" by simp
  have 2: "?el \<in> set (token_elements ?root)" by simp
  have 3: "int_of_attr (dict_get ?el ''begin'') = Inl ValueError" by code_simp
  have 4: "re_search (digits_attr_at ''begin'') ?l = None"
    by code_simp
  note inst = malformed_offsets
  from inst [THEN conjunct1, rule_format, of ?f ?root ?el] 1 2 3
  have "\<exists>err. process_xmi_file (Some ?f) = Inl err" by blast
  moreover from inst [THEN conjunct2, THEN conjunct1, rule_format, of ?l] 4
  have "anno_of_line ?l = Inr None" by blast
  ultimately show ?thesis by (rule conjI)
qed

text \<open>A file with a custom span whose \<^verbatim>\<open>begin\<close> is \<^verbatim>\<open>abc\<close>: the conversion succeeds, the
  span is left out and the other span is written.\<close>

theorem malformed_offsets_counterexample:
  \<open>process_xmi_file (Some \<lparr>content =
       ''<xmi:XMI xmlns:xmi="http://www.omg.org/XMI" xmlns:cas="http:///uima/cas.ecore" xmlns:custom="http:///custom.ecore">\<newline><cas:Sofa xmi:id="1" sofaString="hello world"/>\<newline><custom:Ent xmi:id="5" sofa="1" begin="abc" end="5"/>\<newline><custom:Ent xmi:id="6" sofa="1" begin="6" end="11"/>\<newline></xmi:XMI>'',
     parsed = Some \<lparr>sofa_element = Some [(''{http://www.omg.org/XMI}id'', ''1''), (''sofaString'', ''hello world'')],
                     token_elements = []\<rparr>\<rparr>)
   = Inr (Some ([(PStr ''6'', [(''xmi_id'', PStr ''6''), (''begin'', PInt 6), (''end'', PInt 11),
                               (''label'', PStr ''Ent''), (''id'', PStr ''6''),
                               (''token'', PStr ''UNKNOWN'')])], []))\<close>
  by code_simp

section \<open>Offsets of entity spans and tokens\<close>

lemma py_slice_empty: "0 \<le> e \<Longrightarrow> e \<le> b \<Longrightarrow> py_slice s b e = []"
  by (simp add: py_slice_def slice_index_def Let_def)

lemma strip_empty: "strip [] = []"
  by (simp add: strip_def)

lemma collect_tokens_all:
  assumes "collect_tokens sofa_text els tokens token_lookup = Inr (tokens', token_lookup')"
    and "\<forall>t\<in>set tokens. 0 \<le> tok_begin t \<and> 0 \<le> tok_end t \<longrightarrow> tok_begin t < tok_end t"
  shows "\<forall>t\<in>set tokens'. 0 \<le> tok_begin t \<and> 0 \<le> tok_end t \<longrightarrow> tok_begin t < tok_end t"
  using assms
proof (induction els arbitrary: tokens token_lookup)
  case Nil
  then show ?case by simp
next
  case (Cons el els)
  from Cons.prems(1) obtain b e sofa where
    b: "int_of_attr (dict_get el ''begin'') = Inr b" and
    e: "int_of_attr (dict_get el ''end'') = Inr e" and
    sofa: "sofa_text = Some sofa"
    by (auto split: sum.splits option.splits)
  let ?tt = "collapse_ws (strip (py_slice sofa b e))"
  show ?case
  proof (cases "?tt = []")
    case True
    with Cons.prems(1) b e sofa
    have "collect_tokens sofa_text els tokens token_lookup = Inr (tokens', token_lookup')"
      by simp
    from Cons.IH [OF this Cons.prems(2)] show ?thesis .
  next
    case False
    let ?t = "\<lparr>tok_xmi_id = dict_get el ''xmi:id'', tok_begin = b, tok_end = e, tok_text = ?tt\<rparr>"
    from False Cons.prems(1) b e sofa
    have step: "collect_tokens sofa_text els (tokens @ [?t]) (dict_set (b, e) ?tt token_lookup)
                 = Inr (tokens', token_lookup')"
      by (simp add: Let_def)
    have "0 \<le> b \<and> 0 \<le> e \<longrightarrow> b < e"
    proof (intro impI, rule ccontr)
      assume "0 \<le> b \<and> 0 \<le> e" and "\<not> b < e"
      then have "py_slice sofa b e = []" by (intro py_slice_empty) auto
      with False show False by (simp add: strip_empty)
    qed
    with Cons.prems(2)
    have "\<forall>t\<in>set (tokens @ [?t]). 0 \<le> tok_begin t \<and> 0 \<le> tok_end t \<longrightarrow> tok_begin t < tok_end t"
      by auto
    from Cons.IH [OF step this] show ?thesis .
  qed
qed

text \<open>
  C5 (as the code has it). Every entity span produced by \<^verbatim>\<open>extract_custom_annos\<close> has
  integer \<^verbatim>\<open>begin\<close> and \<^verbatim>\<open>end\<close> offsets that are not negative; nothing orders them. Every
  token produced by \<^verbatim>\<open>extract_tokens_from_xmi\<close> whose \<^verbatim>\<open>begin\<close> and \<^verbatim>\<open>end\<close> are both not
  negative has \<^verbatim>\<open>begin < end\<close>, since the slice of any other such token is empty and the
  token is dropped.
\<close>

theorem offsets_of_spans_and_tokens:
  "(\<forall>c ners relations k v.
      extract_custom_annos c = Inr (ners, relations) \<and> dict_get ners k = Some v
      \<longrightarrow> (\<exists>b e. dict_get v ''begin'' = Some (PInt b) \<and> dict_get v ''end'' = Some (PInt e)
                  \<and> 0 \<le> b \<and> 0 \<le> e))
   \<and> (\<forall>xml tokens token_lookup t.
      extract_tokens_from_xmi xml = Inr (tokens, token_lookup) \<and> t \<in> set tokens
      \<and> 0 \<le> tok_begin t \<and> 0 \<le> tok_end t
      \<longrightarrow> tok_begin t < tok_end t)"
proof (intro conjI allI impI)
  fix c :: string and ners relations :: "(pyval, anno) dict" and k v
  assume a: "extract_custom_annos c = Inr (ners, relations) \<and> dict_get ners k = Some v"
  then obtain annos where annos: "collect_annos (split_nl c) [] = Inr annos"
    and ners: "ners = filter (\<lambda>(k, v). is_ner v) annos"
    by (auto simp: extract_custom_annos_def raw_annos_def split: sum.splits)
  let ?P = "\<lambda>v. \<exists>b e. dict_get v ''begin'' = Some (PInt b) \<and> dict_get v ''end'' = Some (PInt e)
                  \<and> 0 \<le> b \<and> 0 \<le> e"
  have "\<forall>(k, v)\<in>set annos. ?P v"
  proof (rule collect_annos_all [OF annos])
    show "\<forall>(k, v)\<in>set []. ?P v" by simp
  next
    fix l r
    assume "anno_of_line l = Inr (Some r)"
    from anno_of_line_fields [OF this] obtain b e where
      "dict_get r ''begin'' = Some (PInt (int b))" "dict_get r ''end'' = Some (PInt (int e))"
      by blast
    then show "?P r" by simp
  qed
  moreover from a have "(k, v) \<in> set ners"
    by (auto simp: dict_get_def dest: map_of_SomeD)
  ultimately show "?P v" using ners by auto
next
  fix xml tokens and token_lookup :: "(int \<times> int, string) dict" and t
  assume a: "extract_tokens_from_xmi xml = Inr (tokens, token_lookup) \<and> t \<in> set tokens
      \<and> 0 \<le> tok_begin t \<and> 0 \<le> tok_end t"
  then obtain root where
    "collect_tokens (sofa_string root) (token_elements root) [] [] = Inr (tokens, token_lookup)"
    by (auto simp: extract_tokens_from_xmi_def split: option.splits)
  from collect_tokens_all [OF this] a show "tok_begin t < tok_end t" by simp
qed

text \<open>The theorem at one custom line and at one token element.\<close>

theorem offsets_of_spans_and_tokens_witness:
  \<open>(\<exists>b e. dict_get [(''xmi_id'', PStr ''5''), (''begin'', PInt 10), (''end'', PInt 5),
                     (''label'', PStr ''Ent''), (''id'', PStr ''5'')] ''begin'' = Some (PInt b)
         \<and> dict_get [(''xmi_id'', PStr ''5''), (''begin'', PInt 10), (''end'', PInt 5),
                     (''label'', PStr ''Ent''), (''id'', PStr ''5'')] ''end'' = Some (PInt e)
         \<and> 0 \<le> b \<and> 0 \<le> e)
   \<and> tok_begin \<lparr>tok_xmi_id = None, tok_begin = 0, tok_end = 5, tok_text = ''hello''\<rparr>
     < tok_end \<lparr>tok_xmi_id = None, tok_begin = 0, tok_end = 5, tok_text = ''hello''\<rparr>\<close>
proof -
  let ?c = \<open>''<custom:Ent xmi:id="5" begin="10" end="5"/>''\<close>
  let ?v = "[(''xmi_id'', PStr ''5''), (''begin'', PInt 10), (''end'', PInt 5),
             (''label'', PStr ''Ent''), (''id'', PStr ''5'')]"
  let ?xml = "Some \<lparr>sofa_element = Some [(''sofaString'', ''hello world'')],
                    token_elements = [[(''begin'', ''0''), (''end'', ''5'')]]\<rparr>"
  let ?t = "\<lparr>tok_xmi_id = None, tok_begin = 0, tok_end = 5, tok_text = ''hello''\<rparr>"
  have 1: "extract_custom_annos ?c = Inr ([(PStr ''5'', ?v)], [])" by code_simp
  have 2: "dict_get [(PStr ''5'', ?v)] (PStr ''5'') = Some ?v" by code_simp
  have 3: "extract_tokens_from_xmi ?xml = Inr ([?t], [((0, 5), ''hello'')])" by code_simp
  have 4: "?t \<in> set [?t] \<and> 0 \<le> tok_begin ?t \<and> 0 \<le> tok_end ?t" by simp
  from offsets_of_spans_and_tokens have
    a: "extract_custom_annos ?c = Inr ([(PStr ''5'', ?v)], [])
        \<and> dict_get [(PStr ''5'', ?v)] (PStr ''5'') = Some ?v
      \<longrightarrow> (\<exists>b e. dict_get ?v ''begin'' = Some (PInt b) \<and> dict_get ?v ''end'' = Some (PInt e)
                  \<and> 0 \<le> b \<and> 0 \<le> e)"
    and b: "extract_tokens_from_xmi ?xml = Inr ([?t], [((0, 5), ''hello'')]) \<and> ?t \<in> set [?t]
      \<and> 0 \<le> tok_begin ?t \<and> 0 \<le> tok_end ?t
      \<longrightarrow> tok_begin ?t < tok_end ?t"
    by blast+
  from a 1 2 b 3 4 show ?thesis by blast
qed

text \<open>An entity span with \<^verbatim>\<open>begin\<close> 10 and \<^verbatim>\<open>end\<close> 5, and a token with \<^verbatim>\<open>begin\<close> 3 and
  \<^verbatim>\<open>end\<close> -1 (the slice \<^verbatim>\<open>"hello"[3:-1]\<close> is \<^verbatim>\<open>"l"\<close>).\<close>

theorem offsets_of_spans_and_tokens_counterexample:
  \<open>extract_custom_annos ''<custom:Ent xmi:id="5" begin="10" end="5"/>''
     = Inr ([(PStr ''5'', [(''xmi_id'', PStr ''5''), (''begin'', PInt 10), (''end'', PInt 5),
                           (''label'', PStr ''Ent''), (''id'', PStr ''5'')])], [])
   \<and> extract_tokens_from_xmi
       (Some \<lparr>sofa_element = Some [(''sofaString'', ''hello'')],
              token_elements = [[(''begin'', ''3''), (''end'', ''-1'')]]\<rparr>)
     = Inr ([\<lparr>tok_xmi_id = None, tok_begin = 3, tok_end = - 1, tok_text = ''l''\<rparr>],
            [((3, - 1), ''l'')])\<close>
  by code_simp

section \<open>The derived text of a span\<close>

lemma span_tokens_filter:
  assumes "dict_get span ''begin'' = Some (PInt b)" and "dict_get span ''end'' = Some (PInt e)"
  shows "span_tokens span tokens
         = Inr (map tok_text (filter (\<lambda>t. b \<le> tok_begin t \<and> tok_begin t \<le> e) tokens))"
proof (induction tokens)
  case Nil
  then show ?case by simp
next
  case (Cons t ts)
  have "starts_inside span t = Inr (b \<le> tok_begin t \<and> tok_begin t \<le> e)"
    using assms
    by (cases "b \<le> tok_begin t")
       (simp_all add: starts_inside_def dict_item_def val_le_int_def int_le_val_def)
  with Cons show ?case by simp
qed

text \<open>
  C7. For spans whose \<^verbatim>\<open>begin\<close> and \<^verbatim>\<open>end\<close> are integers (as every extracted span's are),
  \<^verbatim>\<open>map_tokens_to_spans\<close> returns the spans in their order, each with its \<^verbatim>\<open>"token"\<close> entry
  set to the single-space join, in token order, of the texts of exactly the tokens whose
  \<^verbatim>\<open>begin\<close> lies between the span's \<^verbatim>\<open>begin\<close> and \<^verbatim>\<open>end\<close> (the token's end is not looked
  at), and to \<^verbatim>\<open>UNKNOWN\<close> when there is no such token.
\<close>

theorem map_tokens_to_spans_preview:
  assumes "\<forall>(k, span)\<in>set spans.
             \<exists>b e. dict_get span ''begin'' = Some (PInt b) \<and> dict_get span ''end'' = Some (PInt e)"
  shows "\<exists>out. map_tokens_to_spans tokens token_lookup spans = Inr out
           \<and> length out = length spans
           \<and> (\<forall>i<length spans. \<forall>b e.
                 dict_get (snd (spans ! i)) ''begin'' = Some (PInt b)
                 \<and> dict_get (snd (spans ! i)) ''end'' = Some (PInt e)
                 \<longrightarrow> out ! i = (fst (spans ! i),
                               dict_set ''token'' (PStr (span_preview b e tokens)) (snd (spans ! i))))"
  using assms unfolding map_tokens_to_spans_def
proof (induction spans)
  case Nil
  then show ?case by simp
next
  case (Cons p spans)
  obtain k span where p: "p = (k, span)" by (cases p)
  from Cons.prems p obtain b e where
    b: "dict_get span ''begin'' = Some (PInt b)" and e: "dict_get span ''end'' = Some (PInt e)"
    by auto
  from Cons.prems have "\<forall>(k, span)\<in>set spans.
      \<exists>b e. dict_get span ''begin'' = Some (PInt b) \<and> dict_get span ''end'' = Some (PInt e)"
    by simp
  from Cons.IH [OF this] obtain rest where
    rest: "map_spans tokens spans = Inr rest" and len: "length rest = length spans" and
    nth: "\<forall>i<length spans. \<forall>b e.
                 dict_get (snd (spans ! i)) ''begin'' = Some (PInt b)
                 \<and> dict_get (snd (spans ! i)) ''end'' = Some (PInt e)
                 \<longrightarrow> rest ! i = (fst (spans ! i),
                               dict_set ''token'' (PStr (span_preview b e tokens)) (snd (spans ! i)))"
    by blast
  let ?new = "(k, dict_set ''token'' (PStr (span_preview b e tokens)) span)"
  have run: "map_spans tokens (p # spans) = Inr (?new # rest)"
    using p rest span_tokens_filter [OF b e, of tokens]
    by (simp add: span_preview_def Let_def)
  have "\<forall>i<length (p # spans). \<forall>b e.
                 dict_get (snd ((p # spans) ! i)) ''begin'' = Some (PInt b)
                 \<and> dict_get (snd ((p # spans) ! i)) ''end'' = Some (PInt e)
                 \<longrightarrow> (?new # rest) ! i = (fst ((p # spans) ! i),
                     dict_set ''token'' (PStr (span_preview b e tokens)) (snd ((p # spans) ! i)))"
  proof (intro allI impI)
    fix i b' e'
    assume i: "i < length (p # spans)"
      and be: "dict_get (snd ((p # spans) ! i)) ''begin'' = Some (PInt b')
                 \<and> dict_get (snd ((p # spans) ! i)) ''end'' = Some (PInt e')"
    show "(?new # rest) ! i = (fst ((p # spans) ! i),
            dict_set ''token'' (PStr (span_preview b' e' tokens)) (snd ((p # spans) ! i)))"
    proof (cases i)
      case 0
      with be p b e show ?thesis by simp
    next
      case (Suc j)
      with i be nth show ?thesis by simp
    qed
  qed
  with run len show ?case by simp
qed

text \<open>The theorem at three tokens and two spans: the first span starts inside "black"
  and ends where "cat" begins, the second covers no token.\<close>

theorem map_tokens_to_spans_preview_witness:
  \<open>\<exists>out. map_tokens_to_spans
            [\<lparr>tok_xmi_id = None, tok_begin = 0, tok_end = 3, tok_text = ''the''\<rparr>,
             \<lparr>tok_xmi_id = None, tok_begin = 4, tok_end = 9, tok_text = ''black''\<rparr>,
             \<lparr>tok_xmi_id = None, tok_begin = 10, tok_end = 13, tok_text = ''cat''\<rparr>] []
            [(PStr ''5'', [(''begin'', PInt 4), (''end'', PInt 10)]),
             (PStr ''6'', [(''begin'', PInt 20), (''end'', PInt 30)])] = Inr out
      \<and> out ! 0 = (PStr ''5'', [(''begin'', PInt 4), (''end'', PInt 10), (''token'', PStr ''black cat'')])
      \<and> out ! 1 = (PStr ''6'', [(''begin'', PInt 20), (''end'', PInt 30), (''token'', PStr ''UNKNOWN'')])\<close>
proof -
  let ?tokens = "[\<lparr>tok_xmi_id = None, tok_begin = 0, tok_end = 3, tok_text = ''the''\<rparr>,
             \<lparr>tok_xmi_id = None, tok_begin = 4, tok_end = 9, tok_text = ''black''\<rparr>,
             \<lparr>tok_xmi_id = None, tok_begin = 10, tok_end = 13, tok_text = ''cat''\<rparr>]"
  let ?s0 = "[(''begin'', PInt 4), (''end'', PInt 10)]"
  let ?s1 = "[(''begin'', PInt 20), (''end'', PInt 30)]"
  let ?spans = "[(PStr ''5'', ?s0), (PStr ''6'', ?s1)]"
  have wf: "\<forall>(k, span)\<in>set ?spans.
             \<exists>b e. dict_get span ''begin'' = Some (PInt b) \<and> dict_get span ''end'' = Some (PInt e)"
    by (simp add: dict_get_def)
  from map_tokens_to_spans_preview [OF wf, of ?tokens "[]"] obtain out where
    run: "map_tokens_to_spans ?tokens [] ?spans = Inr out" and
    nth: "\<forall>i<length ?spans. \<forall>b e.
                 dict_get (snd (?spans ! i)) ''begin'' = Some (PInt b)
                 \<and> dict_get (snd (?spans ! i)) ''end'' = Some (PInt e)
                 \<longrightarrow> out ! i = (fst (?spans ! i),
                               dict_set ''token'' (PStr (span_preview b e ?tokens)) (snd (?spans ! i)))"
    by blast
  have p0: "span_preview 4 10 ?tokens = ''black cat''" by code_simp
  have p1: "span_preview 20 30 ?tokens = ''UNKNOWN''" by code_simp
  from nth have "dict_get (snd (?spans ! 0)) ''begin'' = Some (PInt 4)
                 \<and> dict_get (snd (?spans ! 0)) ''end'' = Some (PInt 10)
                 \<longrightarrow> out ! 0 = (fst (?spans ! 0),
                               dict_set ''token'' (PStr (span_preview 4 10 ?tokens)) (snd (?spans ! 0)))"
    by simp
  then have o0: "out ! 0 = (PStr ''5'', ?s0 @ [(''token'', PStr ''black cat'')])"
    unfolding p0 by (simp add: dict_get_def)
  from nth have "1 < length ?spans \<longrightarrow> dict_get (snd (?spans ! 1)) ''begin'' = Some (PInt 20)
                 \<and> dict_get (snd (?spans ! 1)) ''end'' = Some (PInt 30)
                 \<longrightarrow> out ! 1 = (fst (?spans ! 1),
                               dict_set ''token'' (PStr (span_preview 20 30 ?tokens)) (snd (?spans ! 1)))"
    by blast
  then have o1: "out ! 1 = (PStr ''6'', ?s1 @ [(''token'', PStr ''UNKNOWN'')])"
    unfolding p1 by (simp add: dict_get_def)
  from run o0 o1 show ?thesis by simp
qed

section \<open>The sides of a relationship\<close>

text \<open>Every record the extractor sorts into the relationships has an identifier and a
  label.\<close>

lemma extracted_relations_fields:
  assumes "extract_custom_annos c = Inr (ners, relations)"
  shows "\<forall>(k, rel)\<in>set relations. dict_has rel ''xmi_id'' \<and> dict_has rel ''label''"
proof -
  from assms obtain annos where annos: "collect_annos (split_nl c) [] = Inr annos"
    and rels: "relations = filter (\<lambda>(k, v). is_relation v) annos"
    by (auto simp: extract_custom_annos_def raw_annos_def split: sum.splits)
  have "\<forall>(k, v)\<in>set annos. dict_has v ''xmi_id'' \<and> dict_has v ''label''"
  proof (rule collect_annos_all [OF annos])
    show "\<forall>(k, v)\<in>set []. dict_has v ''xmi_id'' \<and> dict_has v ''label''" by simp
  next
    fix l r
    assume "anno_of_line l = Inr (Some r)"
    from anno_of_line_fields [OF this]
    show "dict_has r ''xmi_id'' \<and> dict_has r ''label''"
      by (auto simp: dict_has_def)
  qed
  with rels show ?thesis by auto
qed

lemma resolve_resolved: "resolved ners ref (resolve ners ref)"
  by (auto simp: resolved_def resolve_def)

text \<open>
  C9. For relationship records that have an identifier and a label (as every extracted
  record has), \<^verbatim>\<open>map_relationships\<close> raises no error and returns one flattened record per
  relationship, in order, with the relationship's identifier and label, and with each
  side resolved on its own: to the referenced span's derived token text when the
  \<^verbatim>\<open>Dependent\<close> (or \<^verbatim>\<open>Governor\<close>) identifier is in the entity span mapping, to \<^verbatim>\<open>UNKNOWN\<close>
  when it is absent or unresolved.
\<close>

theorem map_relationships_resolves:
  assumes "\<forall>(k, rel)\<in>set relations. dict_has rel ''xmi_id'' \<and> dict_has rel ''label''"
  shows "\<exists>out. map_relationships relations ners = Inr out
           \<and> length out = length relations
           \<and> (\<forall>i<length relations.
                 dict_get (snd (relations ! i)) ''xmi_id'' = Some (rel_xmi_id (out ! i))
               \<and> dict_get (snd (relations ! i)) ''label'' = Some (rel_label (out ! i))
               \<and> resolved ners (dict_get (snd (relations ! i)) ''Dependent'') (rel_dep (out ! i))
               \<and> resolved ners (dict_get (snd (relations ! i)) ''Governor'') (rel_gov (out ! i)))"
  using assms
proof (induction relations)
  case Nil
  then show ?case by simp
next
  case (Cons p relations)
  obtain k rel where p: "p = (k, rel)" by (cases p)
  from Cons.prems p obtain i l where
    i: "dict_get rel ''xmi_id'' = Some i" and l: "dict_get rel ''label'' = Some l"
    by (auto simp: dict_has_def)
  from Cons.prems have "\<forall>(k, rel)\<in>set relations. dict_has rel ''xmi_id'' \<and> dict_has rel ''label''"
    by simp
  from Cons.IH [OF this] obtain rest where
    rest: "map_relationships relations ners = Inr rest" and len: "length rest = length relations"
    and nth: "\<And>j. j < length relations \<Longrightarrow>
                 dict_get (snd (relations ! j)) ''xmi_id'' = Some (rel_xmi_id (rest ! j))
               \<and> dict_get (snd (relations ! j)) ''label'' = Some (rel_label (rest ! j))
               \<and> resolved ners (dict_get (snd (relations ! j)) ''Dependent'') (rel_dep (rest ! j))
               \<and> resolved ners (dict_get (snd (relations ! j)) ''Governor'') (rel_gov (rest ! j))"
    by blast
  let ?r = "\<lparr>rel_xmi_id = i, rel_label = l,
             rel_dep = resolve ners (dict_get rel ''Dependent''),
             rel_gov = resolve ners (dict_get rel ''Governor'')\<rparr>"
  have run: "map_relationships (p # relations) ners = Inr (?r # rest)"
    using p i l rest by (simp add: dict_item_def)
  have "dict_get (snd ((p # relations) ! j)) ''xmi_id'' = Some (rel_xmi_id ((?r # rest) ! j))
      \<and> dict_get (snd ((p # relations) ! j)) ''label'' = Some (rel_label ((?r # rest) ! j))
      \<and> resolved ners (dict_get (snd ((p # relations) ! j)) ''Dependent'') (rel_dep ((?r # rest) ! j))
      \<and> resolved ners (dict_get (snd ((p # relations) ! j)) ''Governor'') (rel_gov ((?r # rest) ! j))"
    if "j < length (p # relations)" for j
  proof (cases j)
    case 0
    with p i l show ?thesis by (simp add: resolve_resolved)
  next
    case (Suc m)
    with that have "m < length relations" by simp
    from nth [OF this] Suc show ?thesis by simp
  qed
  with run len show ?case by simp
qed

text \<open>The scenario of the specification: \<^verbatim>\<open>Dependent="5"\<close> resolves to the span text
  \<^verbatim>\<open>cat\<close>, \<^verbatim>\<open>Governor="9"\<close> is absent from the entity span mapping.\<close>

theorem map_relationships_resolves_witness:
  "\<exists>out. map_relationships
            [(PStr ''7'', [(''xmi_id'', PStr ''7''), (''label'', PStr ''Rel''),
                           (''Dependent'', PStr ''5''), (''Governor'', PStr ''9'')])]
            [(PStr ''5'', [(''xmi_id'', PStr ''5''), (''label'', PStr ''Ent''),
                           (''token'', PStr ''cat'')])] = Inr out
      \<and> length out = 1
      \<and> rel_dep (out ! 0) = PStr ''cat'' \<and> rel_gov (out ! 0) = PStr ''UNKNOWN''"
proof -
  let ?rel = "[(''xmi_id'', PStr ''7''), (''label'', PStr ''Rel''),
               (''Dependent'', PStr ''5''), (''Governor'', PStr ''9'')]"
  let ?span = "[(''xmi_id'', PStr ''5''), (''label'', PStr ''Ent''), (''token'', PStr ''cat'')]"
  let ?relations = "[(PStr ''7'', ?rel)]"
  let ?ners = "[(PStr ''5'', ?span)]"
  have wf: "\<forall>(k, rel)\<in>set ?relations. dict_has rel ''xmi_id'' \<and> dict_has rel ''label''"
    by (simp add: dict_has_def dict_get_def)
  from map_relationships_resolves [OF wf, of ?ners] obtain out where
    run: "map_relationships ?relations ?ners = Inr out" and len: "length out = 1" and
    dep: "resolved ?ners (dict_get ?rel ''Dependent'') (rel_dep (out ! 0))" and
    gov: "resolved ?ners (dict_get ?rel ''Governor'') (rel_gov (out ! 0))"
    by auto
  have d: "dict_get ?rel ''Dependent'' = Some (PStr ''5'')"
    and s: "dict_get ?ners (PStr ''5'') = Some ?span"
    and t: "dict_get ?span ''token'' = Some (PStr ''cat'')"
    and g: "dict_get ?rel ''Governor'' = Some (PStr ''9'')"
    and n: "dict_get ?ners (PStr ''9'') = None"
    by (simp_all add: dict_get_def)
  from dep d s t have "rel_dep (out ! 0) = PStr ''cat''"
    unfolding resolved_def by blast
  moreover from gov g n have "rel_gov (out ! 0) = PStr ''UNKNOWN''"
    unfolding resolved_def by blast
  ultimately show ?thesis using run len by blast
qed

section \<open>The offsets of the whitespace tokens\<close>

lemma split_ws_Nil:
  assumes "dropWhile is_space s = []"
  shows "split_ws s = []"
  by (subst split_ws.simps) (simp only: assms list.simps)

lemma split_ws_Cons:
  assumes "split_ws s = tok # toks"
  shows "\<exists>ws rest. s = ws @ tok @ rest \<and> (\<forall>c\<in>set ws. is_space c) \<and> tok \<noteq> []
           \<and> \<not> is_space (hd tok) \<and> split_ws rest = toks"
proof (cases "dropWhile is_space s")
  case Nil
  with assms show ?thesis by (simp add: split_ws_Nil)
next
  case (Cons c cs)
  let ?ws = "takeWhile is_space s"
  let ?tok = "takeWhile (\<lambda>x. \<not> is_space x) (c # cs)"
  let ?rest = "dropWhile (\<lambda>x. \<not> is_space x) (c # cs)"
  have c: "\<not> is_space c"
    using Cons hd_dropWhile [of is_space s] by fastforce
  have "split_ws s = ?tok # split_ws ?rest"
    by (subst split_ws.simps) (simp add: Cons)
  with assms have tok: "tok = ?tok" and toks: "split_ws ?rest = toks" by simp_all
  have "s = ?ws @ (c # cs)"
    using Cons takeWhile_dropWhile_id [of is_space s] by simp
  also have "c # cs = ?tok @ ?rest" by simp
  finally have "s = ?ws @ tok @ ?rest" using tok by simp
  moreover have "\<forall>x\<in>set ?ws. is_space x" by (auto dest: set_takeWhileD)
  moreover have "tok \<noteq> []" "\<not> is_space (hd tok)" using tok c by simp_all
  ultimately show ?thesis using toks by blast
qed

lemma find_in_skip:
  assumes "\<forall>c\<in>set ws. is_space c" and "tok \<noteq> []" and "\<not> is_space (hd tok)"
  shows "find_in tok (ws @ tok @ rest) i = int (i + length ws)"
  using assms(1)
proof (induction ws arbitrary: i)
  case Nil
  from assms(2) obtain c cs where "tok @ rest = c # cs" by (cases tok) auto
  moreover have "starts_with (tok @ rest) tok" by (simp add: starts_with_def)
  ultimately show ?case by simp
next
  case (Cons w ws)
  have "\<not> starts_with (w # ws @ tok @ rest) tok"
  proof
    assume "starts_with (w # ws @ tok @ rest) tok"
    then have "take (length tok) (w # ws @ tok @ rest) = tok" by (simp add: starts_with_def)
    with assms(2) have "hd tok = w" by (cases tok) auto
    with Cons.prems assms(3) show False by simp
  qed
  moreover from Cons have "find_in tok (ws @ tok @ rest) (Suc i) = int (Suc i + length ws)"
    by simp
  ultimately show ?case by simp
qed

text \<open>The search from the cursor finds the next token where the split found it: right
  after the whitespace that follows the cursor.\<close>

lemma py_find_at_cursor:
  assumes "cur \<le> length text" and "drop cur text = ws @ tok @ rest"
    and "\<forall>c\<in>set ws. is_space c" and "tok \<noteq> []" and "\<not> is_space (hd tok)"
  shows "py_find text tok (int cur) = int (cur + length ws)"
  using assms(1,2) find_in_skip [OF assms(3,4,5), of rest cur]
  by (simp add: py_find_def)

lemma token_offsets_correct:
  assumes "split_ws (drop cur text) = toks" and "cur \<le> length text"
  shows "(\<forall>x\<in>set (token_offsets text toks (int cur)).
            int cur \<le> fst (snd x) \<and> snd (snd x) = fst (snd x) + int (length (fst x))
            \<and> snd (snd x) \<le> int (length text)
            \<and> take (length (fst x)) (drop (nat (fst (snd x))) text) = fst x)
       \<and> distinct (map (\<lambda>x. fst (snd x)) (token_offsets text toks (int cur)))"
  using assms
proof (induction toks arbitrary: cur)
  case Nil
  show ?case by simp
next
  case (Cons tok toks)
  from split_ws_Cons [OF Cons.prems(1)] obtain ws rest where
    d: "drop cur text = ws @ tok @ rest" and ws: "\<forall>c\<in>set ws. is_space c"
    and tok: "tok \<noteq> []" "\<not> is_space (hd tok)" and rest: "split_ws rest = toks"
    by blast
  let ?s = "cur + length ws"
  let ?e = "?s + length tok"
  let ?tail = "token_offsets text toks (int ?e)"
  have find: "py_find text tok (int cur) = int ?s"
    using Cons.prems(2) d ws tok by (rule py_find_at_cursor)
  have "length (drop cur text) = length ws + length tok + length rest"
    using d by simp
  with Cons.prems(2) have le: "?e \<le> length text" by simp
  have "drop ?e text = drop (length ws + length tok) (drop cur text)"
    by (simp add: add.commute add.left_commute)
  then have dr: "drop ?e text = rest" using d by simp
  have "drop ?s text = drop (length ws) (drop cur text)"
    by (simp add: add.commute)
  then have tk: "take (length tok) (drop ?s text) = tok" using d by simp
  from rest dr have "split_ws (drop ?e text) = toks" by simp
  from Cons.IH [OF this le] have
    IH1: "\<And>x. x \<in> set ?tail \<Longrightarrow>
            int ?e \<le> fst (snd x) \<and> snd (snd x) = fst (snd x) + int (length (fst x))
            \<and> snd (snd x) \<le> int (length text)
            \<and> take (length (fst x)) (drop (nat (fst (snd x))) text) = fst x"
    and IH2: "distinct (map (\<lambda>x. fst (snd x)) ?tail)"
    by blast+
  have unfold: "token_offsets text (tok # toks) (int cur) = (tok, int ?s, int ?e) # ?tail"
    using find by (simp add: Let_def)
  have later: "int ?s < fst (snd x)" if "x \<in> set ?tail" for x
  proof -
    from IH1 [OF that] have "int ?e \<le> fst (snd x)" by simp
    moreover from tok(1) obtain c cs where "tok = c # cs" by (cases tok) auto
    ultimately show ?thesis by simp
  qed
  have "int ?s \<notin> set (map (\<lambda>x. fst (snd x)) ?tail)"
  proof
    assume "int ?s \<in> set (map (\<lambda>x. fst (snd x)) ?tail)"
    then obtain x where "x \<in> set ?tail" and "fst (snd x) = int ?s" by auto
    with later [of x] show False by simp
  qed
  with IH2 have dist: "distinct (map (\<lambda>x. fst (snd x)) ((tok, int ?s, int ?e) # ?tail))"
    by simp
  have all: "int cur \<le> fst (snd x) \<and> snd (snd x) = fst (snd x) + int (length (fst x))
            \<and> snd (snd x) \<le> int (length text)
            \<and> take (length (fst x)) (drop (nat (fst (snd x))) text) = fst x"
    if "x \<in> set ((tok, int ?s, int ?e) # ?tail)" for x
  proof (cases "x = (tok, int ?s, int ?e)")
    case True
    with le tk show ?thesis by (simp add: nat_int_add)
  next
    case False
    with that have "x \<in> set ?tail" by simp
    from IH1 [OF this] show ?thesis by simp
  qed
  from all dist show ?case unfolding unfold by blast
qed

lemma py_slice_take_drop:
  "0 \<le> s \<Longrightarrow> s + int n \<le> int (length text)
   \<Longrightarrow> py_slice text s (s + int n) = take n (drop (nat s) text)"
  by (simp add: py_slice_def slice_index_def Let_def min_def nat_add_distrib)

lemma token_data_correct:
  assumes "x \<in> set (token_data_of text)"
  shows "0 \<le> fst (snd x) \<and> snd (snd x) = fst (snd x) + int (length (fst x))
         \<and> snd (snd x) \<le> int (length text)
         \<and> take (length (fst x)) (drop (nat (fst (snd x))) text) = fst x"
proof -
  have "split_ws (drop 0 text) = split_ws text" and "0 \<le> length text" by simp_all
  from token_offsets_correct [OF this]
  have "\<forall>x\<in>set (token_offsets text (split_ws text) (int 0)).
            int 0 \<le> fst (snd x) \<and> snd (snd x) = fst (snd x) + int (length (fst x))
            \<and> snd (snd x) \<le> int (length text)
            \<and> take (length (fst x)) (drop (nat (fst (snd x))) text) = fst x"
    by (rule conjunct1)
  moreover from assms have "x \<in> set (token_offsets text (split_ws text) (int 0))"
    by (simp add: token_data_of_def)
  ultimately have "int 0 \<le> fst (snd x) \<and> snd (snd x) = fst (snd x) + int (length (fst x))
            \<and> snd (snd x) \<le> int (length text)
            \<and> take (length (fst x)) (drop (nat (fst (snd x))) text) = fst x"
    by (rule bspec)
  then show ?thesis by simp
qed

lemma token_data_distinct:
  "distinct (map (\<lambda>x. fst (snd x)) (token_data_of text))"
proof -
  have "split_ws (drop 0 text) = split_ws text" and "0 \<le> length text" by simp_all
  from token_offsets_correct [OF this]
  have "distinct (map (\<lambda>x. fst (snd x)) (token_offsets text (split_ws text) (int 0)))"
    by (rule conjunct2)
  then show ?thesis by (simp add: token_data_of_def)
qed

lemma token_offsets_tokens: "map fst (token_offsets text toks cur) = toks"
  by (induction toks arbitrary: cur) (simp_all add: Let_def)

lemma split_ws_empty:
  assumes "split_ws s = []"
  shows "\<forall>c\<in>set s. is_space c"
proof (cases "dropWhile is_space s")
  case Nil
  then show ?thesis by simp
next
  case (Cons c cs)
  have "split_ws s \<noteq> []"
    by (subst split_ws.simps) (simp add: Cons)
  with assms show ?thesis by simp
qed

text \<open>Every character from the cursor on is whitespace or lies inside one of the tokens
  located from there: the search skips nothing but whitespace.\<close>

lemma token_offsets_gaps:
  assumes "split_ws (drop cur text) = toks" and "cur \<le> length text"
    and "cur \<le> i" and "i < length text"
  shows "is_space (text ! i)
       \<or> (\<exists>x\<in>set (token_offsets text toks (int cur)). fst (snd x) \<le> int i \<and> int i < snd (snd x))"
  using assms
proof (induction toks arbitrary: cur)
  case Nil
  from split_ws_empty [OF Nil.prems(1)] have "\<forall>c\<in>set (drop cur text). is_space c" .
  moreover have "drop cur text ! (i - cur) = text ! i"
    using Nil.prems by simp
  moreover have "i - cur < length (drop cur text)"
    using Nil.prems by simp
  ultimately show ?case by (metis nth_mem)
next
  case (Cons tok toks)
  from split_ws_Cons [OF Cons.prems(1)] obtain ws rest where
    d: "drop cur text = ws @ tok @ rest" and ws: "\<forall>c\<in>set ws. is_space c"
    and tok: "tok \<noteq> []" "\<not> is_space (hd tok)" and rest: "split_ws rest = toks"
    by blast
  let ?s = "cur + length ws"
  let ?e = "?s + length tok"
  let ?tail = "token_offsets text toks (int ?e)"
  have find: "py_find text tok (int cur) = int ?s"
    using Cons.prems(2) d ws tok by (rule py_find_at_cursor)
  have unfold: "token_offsets text (tok # toks) (int cur) = (tok, int ?s, int ?e) # ?tail"
    using find by (simp add: Let_def)
  have "length (drop cur text) = length ws + length tok + length rest"
    using d by simp
  with Cons.prems(2) have le: "?e \<le> length text" by simp
  have "drop ?e text = drop (length ws + length tok) (drop cur text)"
    by (simp add: add.commute add.left_commute)
  then have dr: "split_ws (drop ?e text) = toks" using d rest by simp
  consider (gap) "i < ?s" | (head) "?s \<le> i" "i < ?e" | (later) "?e \<le> i" by linarith
  then show ?case
  proof cases
    case gap
    from gap Cons.prems(3) have lt: "i - cur < length ws" by linarith
    have "text ! i = drop cur text ! (i - cur)"
      using Cons.prems by simp
    also have "\<dots> = ws ! (i - cur)"
      using lt by (simp add: d nth_append)
    finally have "text ! i \<in> set ws"
      using lt by simp
    with ws show ?thesis by blast
  next
    case head
    then show ?thesis unfolding unfold by simp
  next
    case later
    from Cons.IH [OF dr le later Cons.prems(4)] show ?thesis
      unfolding unfold by auto
  qed
qed

lemma token_data_gaps:
  assumes "i < length text"
  shows "is_space (text ! i)
       \<or> (\<exists>x\<in>set (token_data_of text). fst (snd x) \<le> int i \<and> int i < snd (snd x))"
proof -
  have "split_ws (drop 0 text) = split_ws text" and "0 \<le> length text" and "0 \<le> i"
    by simp_all
  from token_offsets_gaps [OF this assms] show ?thesis
    by (simp add: token_data_of_def)
qed

text \<open>Each token ends before the next one starts.\<close>

lemma token_offsets_sorted:
  assumes "split_ws (drop cur text) = toks" and "cur \<le> length text"
  shows "sorted_wrt (\<lambda>x y. snd (snd x) \<le> fst (snd y)) (token_offsets text toks (int cur))"
  using assms
proof (induction toks arbitrary: cur)
  case Nil
  show ?case by simp
next
  case (Cons tok toks)
  from split_ws_Cons [OF Cons.prems(1)] obtain ws rest where
    d: "drop cur text = ws @ tok @ rest" and ws: "\<forall>c\<in>set ws. is_space c"
    and tok: "tok \<noteq> []" "\<not> is_space (hd tok)" and rest: "split_ws rest = toks"
    by blast
  let ?s = "cur + length ws"
  let ?e = "?s + length tok"
  let ?tail = "token_offsets text toks (int ?e)"
  have find: "py_find text tok (int cur) = int ?s"
    using Cons.prems(2) d ws tok by (rule py_find_at_cursor)
  have unfold: "token_offsets text (tok # toks) (int cur) = (tok, int ?s, int ?e) # ?tail"
    using find by (simp add: Let_def)
  have "length (drop cur text) = length ws + length tok + length rest"
    using d by simp
  with Cons.prems(2) have le: "?e \<le> length text" by simp
  have "drop ?e text = drop (length ws + length tok) (drop cur text)"
    by (simp add: add.commute add.left_commute)
  then have dr: "split_ws (drop ?e text) = toks" using d rest by simp
  from token_offsets_correct [OF dr le]
  have "\<forall>y\<in>set ?tail. int ?e \<le> fst (snd y)" by blast
  with Cons.IH [OF dr le] show ?case
    unfolding unfold by simp
qed

lemma token_data_sorted:
  "sorted_wrt (\<lambda>x y. snd (snd x) \<le> fst (snd y)) (token_data_of text)"
proof -
  have "split_ws (drop 0 text) = split_ws text" and "0 \<le> length text" by simp_all
  from token_offsets_sorted [OF this] show ?thesis
    by (simp add: token_data_of_def)
qed

section \<open>The BIO labels\<close>

lemma dict_get_init_labels:
  "dict_get (init_labels token_data token_labels) k
   = (if k \<in> (\<lambda>x. fst (snd x)) ` set token_data then Some ''O'' else dict_get token_labels k)"
proof (induction token_data arbitrary: token_labels)
  case Nil
  then show ?case by simp
next
  case (Cons x token_data)
  obtain tok s e where x: "x = (tok, s, e)" by (cases x)
  show ?case
    unfolding x by (auto simp: Cons.IH dict_get_set)
qed

lemma contained_inside:
  assumes "s \<le> e'"
  shows "contained s e' (PInt b) (PInt e) = Inr (inside_span b e (tok, s, e'))"
  using assms
  by (cases "b \<le> s") (auto simp: contained_def val_le_int_def int_le_val_def inside_span_def)

text \<open>One pass of the inner loop: the labels of the tokens inside the span are set, all
  other labels are kept.\<close>

lemma tag_tokens_labels:
  assumes "distinct (map (\<lambda>x. fst (snd x)) token_data)"
    and "\<forall>x\<in>set token_data. fst (snd x) \<le> snd (snd x)"
  shows "\<exists>labels'. tag_tokens (PStr l) (PInt b) (PInt e) token_data inside_entity token_labels = Inr labels'
     \<and> (\<forall>k. k \<notin> (\<lambda>x. fst (snd x)) ` {x \<in> set token_data. inside_span b e x}
            \<longrightarrow> dict_get labels' k = dict_get token_labels k)
     \<and> (\<forall>x\<in>set token_data. inside_span b e x \<longrightarrow>
            dict_get labels' (fst (snd x))
            = Some ((if \<not> inside_entity \<and> find (inside_span b e) token_data = Some x
                     then ''B-'' else ''I-'') @ l))"
  using assms
proof (induction token_data arbitrary: inside_entity token_labels)
  case Nil
  then show ?case by simp
next
  case (Cons y token_data)
  obtain tok s e' where y: "y = (tok, s, e')" by (cases y)
  from Cons.prems y have se: "s \<le> e'" by simp
  from Cons.prems have dist: "distinct (map (\<lambda>x. fst (snd x)) token_data)"
    and ord: "\<forall>x\<in>set token_data. fst (snd x) \<le> snd (snd x)"
    and fresh: "\<And>x. x \<in> set token_data \<Longrightarrow> fst (snd x) \<noteq> s"
    using y by auto
  note c = contained_inside [OF se, of b e tok]
  show ?case
  proof (cases "inside_span b e y")
    case False
    from Cons.IH [OF dist ord, of inside_entity token_labels] obtain labels' where
      run: "tag_tokens (PStr l) (PInt b) (PInt e) token_data inside_entity token_labels = Inr labels'"
      and keep: "\<And>k. k \<notin> (\<lambda>x. fst (snd x)) ` {x \<in> set token_data. inside_span b e x}
            \<Longrightarrow> dict_get labels' k = dict_get token_labels k"
      and tagged: "\<And>x. x \<in> set token_data \<Longrightarrow> inside_span b e x \<Longrightarrow>
            dict_get labels' (fst (snd x))
            = Some ((if \<not> inside_entity \<and> find (inside_span b e) token_data = Some x
                     then ''B-'' else ''I-'') @ l)"
      by blast
    have 1: "tag_tokens (PStr l) (PInt b) (PInt e) (y # token_data) inside_entity token_labels = Inr labels'"
      using run c False y by simp
    have 2: "{x \<in> set (y # token_data). inside_span b e x} = {x \<in> set token_data. inside_span b e x}"
      using False by auto
    have 3: "find (inside_span b e) (y # token_data) = find (inside_span b e) token_data"
      using False by simp
    have "\<forall>x\<in>set (y # token_data). inside_span b e x \<longrightarrow>
            dict_get labels' (fst (snd x))
            = Some ((if \<not> inside_entity \<and> find (inside_span b e) (y # token_data) = Some x
                     then ''B-'' else ''I-'') @ l)"
      unfolding 3 using tagged False by auto
    moreover have "\<forall>k. k \<notin> (\<lambda>x. fst (snd x)) ` {x \<in> set (y # token_data). inside_span b e x}
            \<longrightarrow> dict_get labels' k = dict_get token_labels k"
      unfolding 2 using keep by blast
    ultimately show ?thesis using 1 by blast
  next
    case True
    let ?v = "(if \<not> inside_entity then ''B-'' else ''I-'') @ l"
    let ?L1 = "dict_set s ?v token_labels"
    from Cons.IH [OF dist ord, of True ?L1] obtain labels' where
      run: "tag_tokens (PStr l) (PInt b) (PInt e) token_data True ?L1 = Inr labels'"
      and keep: "\<And>k. k \<notin> (\<lambda>x. fst (snd x)) ` {x \<in> set token_data. inside_span b e x}
            \<Longrightarrow> dict_get labels' k = dict_get ?L1 k"
      and tagged: "\<And>x. x \<in> set token_data \<Longrightarrow> inside_span b e x \<Longrightarrow>
            dict_get labels' (fst (snd x)) = Some (''I-'' @ l)"
      by auto
    have 1: "tag_tokens (PStr l) (PInt b) (PInt e) (y # token_data) inside_entity token_labels = Inr labels'"
      using run c True y by (cases inside_entity) (simp_all add: py_format_def)
    have 3: "find (inside_span b e) (y # token_data) = Some y"
      using True by simp
    have s_fresh: "s \<notin> (\<lambda>x. fst (snd x)) ` {x \<in> set token_data. inside_span b e x}"
      using fresh by auto
    have at_s: "dict_get labels' s = Some ?v"
      using keep [OF s_fresh] by (simp add: dict_get_set)
    have a: "dict_get labels' k = dict_get token_labels k"
      if "k \<notin> (\<lambda>x. fst (snd x)) ` {x \<in> set (y # token_data). inside_span b e x}" for k
    proof -
      from that True y have "k \<noteq> s" by force
      moreover from that have "k \<notin> (\<lambda>x. fst (snd x)) ` {x \<in> set token_data. inside_span b e x}"
        by auto
      ultimately show ?thesis using keep [of k] by (simp add: dict_get_set)
    qed
    have b: "dict_get labels' (fst (snd x))
            = Some ((if \<not> inside_entity \<and> find (inside_span b e) (y # token_data) = Some x
                     then ''B-'' else ''I-'') @ l)"
      if "x \<in> set (y # token_data)" and "inside_span b e x" for x
    proof (cases "x = y")
      case True
      with at_s y 3 show ?thesis by simp
    next
      case False
      with that have x: "x \<in> set token_data" by simp
      from False have "find (inside_span b e) (y # token_data) \<noteq> Some x"
        unfolding 3 by simp
      with tagged [OF x that(2)] show ?thesis by simp
    qed
    from 1 a b show ?thesis by blast
  qed
qed


lemma span_fields_items:
  assumes "span_fields span = Some (l, b, e)"
  shows "dict_item span ''label'' = Inr (PStr l)" and "dict_item span ''begin'' = Inr (PInt b)"
    and "dict_item span ''end'' = Inr (PInt e)"
  using assms
  by (auto simp: span_fields_def dict_item_def split: option.splits pyval.splits)

lemma distinct_starts_eq:
  assumes "distinct (map (\<lambda>x. fst (snd x)) token_data)"
    and "x \<in> set token_data" and "y \<in> set token_data" and "fst (snd x) = fst (snd y)"
  shows "x = y"
proof -
  from assms(1) have "inj_on (\<lambda>x. fst (snd x)) (set token_data)"
    by (simp add: distinct_map)
  with assms(2-4) show ?thesis by (auto dest: inj_onD)
qed

text \<open>The loop over the spans: a token inside some span carries the tag of the last
  such span, any other token keeps its label.\<close>

lemma tag_spans_labels:
  assumes "distinct (map (\<lambda>x. fst (snd x)) token_data)"
    and "\<forall>x\<in>set token_data. fst (snd x) \<le> snd (snd x)"
    and "map span_fields spans = map Some triples"
  shows "\<exists>labels'. tag_spans spans token_data token_labels = Inr labels'
     \<and> (\<forall>x\<in>set token_data.
           dict_get labels' (fst (snd x))
           = (case filter (\<lambda>(l, b, e). inside_span b e x) triples of
                [] \<Rightarrow> dict_get token_labels (fst (snd x))
              | f # fs \<Rightarrow> Some (span_tag token_data (last (f # fs)) x)))"
  using assms(3)
proof (induction spans arbitrary: token_labels triples)
  case Nil
  then show ?case by simp
next
  case (Cons span spans)
  from Cons.prems obtain t ts where triples: "triples = t # ts"
    and t: "span_fields span = Some t" and ts: "map span_fields spans = map Some ts"
    by (cases triples) auto
  obtain l b e where lbe: "t = (l, b, e)" by (cases t)
  note items = span_fields_items [OF t [unfolded lbe]]
  from tag_tokens_labels [OF assms(1,2), of l b e False token_labels] obtain labels1 where
    run1: "tag_tokens (PStr l) (PInt b) (PInt e) token_data False token_labels = Inr labels1"
    and keep: "\<And>k. k \<notin> (\<lambda>x. fst (snd x)) ` {x \<in> set token_data. inside_span b e x}
            \<Longrightarrow> dict_get labels1 k = dict_get token_labels k"
    and tagged: "\<And>x. x \<in> set token_data \<Longrightarrow> inside_span b e x \<Longrightarrow>
            dict_get labels1 (fst (snd x))
            = Some ((if find (inside_span b e) token_data = Some x
                     then ''B-'' else ''I-'') @ l)"
    by auto
  from Cons.IH [OF ts, of labels1] obtain labels' where
    run: "tag_spans spans token_data labels1 = Inr labels'"
    and rest: "\<And>x. x \<in> set token_data \<Longrightarrow>
           dict_get labels' (fst (snd x))
           = (case filter (\<lambda>(l, b, e). inside_span b e x) ts of
                [] \<Rightarrow> dict_get labels1 (fst (snd x))
              | f # fs \<Rightarrow> Some (span_tag token_data (last (f # fs)) x))"
    by blast
  have 1: "tag_spans (span # spans) token_data token_labels = Inr labels'"
    using items run1 run by simp
  have 2: "dict_get labels' (fst (snd x))
           = (case filter (\<lambda>(l, b, e). inside_span b e x) triples of
                [] \<Rightarrow> dict_get token_labels (fst (snd x))
              | f # fs \<Rightarrow> Some (span_tag token_data (last (f # fs)) x))"
    if x: "x \<in> set token_data" for x
  proof (cases "inside_span b e x")
    case True
    have "dict_get labels1 (fst (snd x)) = Some (span_tag token_data t x)"
      using tagged [OF x True] by (simp add: span_tag_def lbe)
    with rest [OF x] True show ?thesis
      by (cases "filter (\<lambda>(l, b, e). inside_span b e x) ts") (simp_all add: triples lbe)
  next
    case False
    have "fst (snd x) \<notin> (\<lambda>x. fst (snd x)) ` {x \<in> set token_data. inside_span b e x}"
    proof
      assume "fst (snd x) \<in> (\<lambda>x. fst (snd x)) ` {x \<in> set token_data. inside_span b e x}"
      then obtain y where y: "y \<in> set token_data" "inside_span b e y"
        and "fst (snd x) = fst (snd y)" by auto
      with distinct_starts_eq [OF assms(1) x y(1)] have "x = y" by simp
      with y(2) False show False by simp
    qed
    from keep [OF this] rest [OF x] False show ?thesis
      by (cases "filter (\<lambda>(l, b, e). inside_span b e x) ts") (simp_all add: triples lbe)
  qed
  from 1 2 show ?case by blast
qed

text \<open>The digits of a natural number are no more than those of a greater one, so the
  offsets of a text whose length has at most 4300 digits are rendered without error.\<close>

lemma str_of_nat_length_mono:
  "m \<le> n \<Longrightarrow> length (str_of_nat m) \<le> length (str_of_nat n)"
proof (induction n arbitrary: m rule: str_of_nat.induct)
  case (1 n)
  show ?case
  proof (cases "m < 10")
    case True
    then have "length (str_of_nat m) = 1"
      by (subst str_of_nat.simps) simp
    moreover have "1 \<le> length (str_of_nat n)"
      by (subst str_of_nat.simps) simp
    ultimately show ?thesis by simp
  next
    case False
    with "1.prems" have n: "\<not> n < 10" by simp
    from "1.prems" have "m div 10 \<le> n div 10" by (rule div_le_mono)
    from "1.IH" [OF n this] have "length (str_of_nat (m div 10)) \<le> length (str_of_nat (n div 10))" .
    moreover have "length (str_of_nat m) = Suc (length (str_of_nat (m div 10)))"
      using False by (subst str_of_nat.simps) simp
    moreover have "length (str_of_nat n) = Suc (length (str_of_nat (n div 10)))"
      using n by (subst str_of_nat.simps) simp
    ultimately show ?thesis by simp
  qed
qed

lemma format_int_offset:
  assumes "length (str_of_nat (length text)) \<le> int_max_str_digits"
    and "0 \<le> i" and "i \<le> int (length text)"
  shows "format_int i = Inr (str_of_int i)"
proof -
  from assms(2,3) have "nat \<bar>i\<bar> \<le> length text" by simp
  from str_of_nat_length_mono [OF this] assms(1)
  show ?thesis by (simp add: format_int_def)
qed

lemma conll_lines_map:
  assumes "\<forall>x\<in>set token_data. dict_get token_labels (fst (snd x)) = Some (f x)"
    and "\<forall>x\<in>set token_data. format_int (fst (snd x)) = Inr (str_of_int (fst (snd x)))
                              \<and> format_int (snd (snd x)) = Inr (str_of_int (snd (snd x)))"
  shows "conll_lines token_data token_labels
         = Inr (map (\<lambda>(tok, s, e). tok @ '' '' @ str_of_int s @ '' '' @ str_of_int e @ '' ''
                                    @ f (tok, s, e)) token_data)"
  using assms
proof (induction token_data)
  case Nil
  then show ?case by simp
next
  case (Cons x token_data)
  obtain tok s e where x: "x = (tok, s, e)" by (cases x)
  from Cons show ?case
    unfolding x by (simp add: dict_item_def)
qed

lemma bio_labels_spec:
  assumes "map span_fields (dict_values ners_spans) = map Some triples"
  shows "\<exists>labels. bio_labels text ners_spans = Inr labels
     \<and> (\<forall>x\<in>set (token_data_of text).
           dict_get labels (fst (snd x)) = Some (bio_label (token_data_of text) triples x))"
proof -
  let ?td = "token_data_of text"
  have ord: "\<forall>x\<in>set ?td. fst (snd x) \<le> snd (snd x)"
    using token_data_correct [of _ "text"] by fastforce
  from tag_spans_labels [OF token_data_distinct ord assms, of "init_labels ?td []"]
  obtain labels where run: "tag_spans (dict_values ners_spans) ?td (init_labels ?td []) = Inr labels"
    and lab: "\<And>x. x \<in> set ?td \<Longrightarrow>
           dict_get labels (fst (snd x))
           = (case filter (\<lambda>(l, b, e). inside_span b e x) triples of
                [] \<Rightarrow> dict_get (init_labels ?td []) (fst (snd x))
              | f # fs \<Rightarrow> Some (span_tag ?td (last (f # fs)) x))"
    by blast
  have "dict_get labels (fst (snd x)) = Some (bio_label ?td triples x)" if x: "x \<in> set ?td" for x
  proof -
    from x have "dict_get (init_labels ?td []) (fst (snd x)) = Some ''O''"
      by (simp add: dict_get_init_labels)
    with lab [OF x] show ?thesis
      by (simp add: bio_label_def split: list.splits)
  qed
  with run show ?thesis by (simp add: bio_labels_def)
qed

text \<open>The output of \<^verbatim>\<open>convert_to_conll\<close> for a document with text and spans with a string
  label and integer offsets: one line per token of the table, with the specification's
  label.\<close>

lemma convert_to_conll_output:
  assumes "extract_sofa_string xml = Inr (Some text)"
    and "map span_fields (dict_values ners_spans) = map Some triples"
    and "length (str_of_nat (length text)) \<le> int_max_str_digits"
  shows "convert_to_conll xml ners_spans
         = Inr (join [CHR 0x0A]
                 (map (\<lambda>(tok, s, e). tok @ '' '' @ str_of_int s @ '' '' @ str_of_int e @ '' ''
                         @ bio_label (token_data_of text) triples (tok, s, e))
                      (token_data_of text)))"
proof -
  from bio_labels_spec [OF assms(2), of "text"] obtain labels where
    run: "bio_labels text ners_spans = Inr labels"
    and lab: "\<forall>x\<in>set (token_data_of text).
           dict_get labels (fst (snd x)) = Some (bio_label (token_data_of text) triples x)"
    by blast
  have fmt: "\<forall>x\<in>set (token_data_of text).
               format_int (fst (snd x)) = Inr (str_of_int (fst (snd x)))
             \<and> format_int (snd (snd x)) = Inr (str_of_int (snd (snd x)))"
  proof
    fix x
    assume "x \<in> set (token_data_of text)"
    from token_data_correct [OF this]
    have "0 \<le> fst (snd x)" "fst (snd x) \<le> int (length text)"
      "0 \<le> snd (snd x)" "snd (snd x) \<le> int (length text)"
      by simp_all
    with assms(3) show "format_int (fst (snd x)) = Inr (str_of_int (fst (snd x)))
             \<and> format_int (snd (snd x)) = Inr (str_of_int (snd (snd x)))"
      by (simp add: format_int_offset)
  qed
  from conll_lines_map [OF lab fmt] assms(1) run show ?thesis
    by (simp add: convert_to_conll_def)
qed

lemma map2_same:
  "map2 f xs (map g xs) = map (\<lambda>x. f x (g x)) xs"
  by (induction xs) simp_all

section \<open>The emitted offsets reproduce the tokens\<close>

text \<open>
  C8. For every document text, the tokens of the table that \<^verbatim>\<open>convert_to_conll\<close> builds
  are the whitespace tokens of the text in order, and each token's offsets, applied
  back to the text, give the token: \<^verbatim>\<open>text[start:end] == token\<close>. No search fails (no
  start is \<^verbatim>\<open>-1\<close>), no token ends beyond the text, each token ends before the next one
  starts, and every character outside the located tokens is whitespace, so each token
  is located at its own position and the cursor never passes one. These offsets are
  the ones emitted: for a document with this text and spans with a string label and
  integer offsets, the output has one line per token of the table, made of the token,
  its start, its end and a label (the length of the text being a number of at most
  4300 digits, as that of every Python string is).
\<close>

theorem token_offsets_reproduce:
  "map fst (token_data_of text) = split_ws text
   \<and> (\<forall>(tok, s, e)\<in>set (token_data_of text).
         0 \<le> s \<and> e = s + int (length tok) \<and> e \<le> int (length text)
         \<and> py_slice text s e = tok)
   \<and> sorted_wrt (\<lambda>x y. snd (snd x) \<le> fst (snd y)) (token_data_of text)
   \<and> (\<forall>i<length text.
         is_space (text ! i)
         \<or> (\<exists>(tok, s, e)\<in>set (token_data_of text). s \<le> int i \<and> int i < e))
   \<and> (\<forall>xml ners_spans triples.
         extract_sofa_string xml = Inr (Some text)
         \<and> map span_fields (dict_values ners_spans) = map Some triples
         \<and> length (str_of_nat (length text)) \<le> int_max_str_digits
         \<longrightarrow> (\<exists>labels. length labels = length (token_data_of text)
               \<and> convert_to_conll xml ners_spans
                 = Inr (join [CHR 0x0A]
                         (map2 (\<lambda>(tok, s, e) l. tok @ '' '' @ str_of_int s @ '' ''
                                                  @ str_of_int e @ '' '' @ l)
                               (token_data_of text) labels))))"
proof (intro conjI)
  show "map fst (token_data_of text) = split_ws text"
    by (simp add: token_data_of_def token_offsets_tokens)
next
  show "\<forall>(tok, s, e)\<in>set (token_data_of text).
         0 \<le> s \<and> e = s + int (length tok) \<and> e \<le> int (length text)
         \<and> py_slice text s e = tok"
  proof (intro ballI, clarify)
    fix tok s e
    assume "(tok, s, e) \<in> set (token_data_of text)"
    from token_data_correct [OF this]
    have "0 \<le> s" and e: "e = s + int (length tok)" and "e \<le> int (length text)"
      and "take (length tok) (drop (nat s) text) = tok"
      by simp_all
    then show "0 \<le> s \<and> e = s + int (length tok) \<and> e \<le> int (length text)
         \<and> py_slice text s e = tok"
      by (simp add: py_slice_take_drop)
  qed
next
  show "sorted_wrt (\<lambda>x y. snd (snd x) \<le> fst (snd y)) (token_data_of text)"
    by (rule token_data_sorted)
next
  show "\<forall>i<length text.
         is_space (text ! i)
         \<or> (\<exists>(tok, s, e)\<in>set (token_data_of text). s \<le> int i \<and> int i < e)"
  proof (intro allI impI)
    fix i
    assume "i < length text"
    from token_data_gaps [OF this]
    show "is_space (text ! i)
         \<or> (\<exists>(tok, s, e)\<in>set (token_data_of text). s \<le> int i \<and> int i < e)"
      by fastforce
  qed
next
  show "\<forall>xml ners_spans triples.
         extract_sofa_string xml = Inr (Some text)
         \<and> map span_fields (dict_values ners_spans) = map Some triples
         \<and> length (str_of_nat (length text)) \<le> int_max_str_digits
         \<longrightarrow> (\<exists>labels. length labels = length (token_data_of text)
               \<and> convert_to_conll xml ners_spans
                 = Inr (join [CHR 0x0A]
                         (map2 (\<lambda>(tok, s, e) l. tok @ '' '' @ str_of_int s @ '' ''
                                                  @ str_of_int e @ '' '' @ l)
                               (token_data_of text) labels)))"
  proof (intro allI impI)
    fix xml :: "xmi_tree option" and ners_spans :: "(pyval, anno) dict"
      and triples :: "(string \<times> int \<times> int) list"
    assume a: "extract_sofa_string xml = Inr (Some text)
         \<and> map span_fields (dict_values ners_spans) = map Some triples
         \<and> length (str_of_nat (length text)) \<le> int_max_str_digits"
    let ?td = "token_data_of text"
    let ?labels = "map (bio_label ?td triples) ?td"
    have "map2 (\<lambda>(tok, s, e) l. tok @ '' '' @ str_of_int s @ '' '' @ str_of_int e @ '' '' @ l)
               ?td ?labels
          = map (\<lambda>(tok, s, e). tok @ '' '' @ str_of_int s @ '' '' @ str_of_int e @ '' ''
                         @ bio_label ?td triples (tok, s, e)) ?td"
      unfolding map2_same by (rule map_cong) auto
    with convert_to_conll_output [of xml "text" ners_spans triples] a
    have "length ?labels = length ?td
        \<and> convert_to_conll xml ners_spans
          = Inr (join [CHR 0x0A]
                  (map2 (\<lambda>(tok, s, e) l. tok @ '' '' @ str_of_int s @ '' ''
                                           @ str_of_int e @ '' '' @ l) ?td ?labels))"
      by simp
    then show "\<exists>labels. length labels = length ?td
               \<and> convert_to_conll xml ners_spans
                 = Inr (join [CHR 0x0A]
                         (map2 (\<lambda>(tok, s, e) l. tok @ '' '' @ str_of_int s @ '' ''
                                                  @ str_of_int e @ '' '' @ l) ?td labels))"
      by (rule exI)
  qed
qed

text \<open>The theorem at a text where a token recurs, once inside another token, with a
  no-break space among the separators.\<close>

theorem token_offsets_reproduce_witness:
  "token_data_of [CHR ''a'', CHR ''b'', CHR 0xA0, CHR '' '', CHR ''c'', CHR ''a'', CHR ''b'',
                  CHR '' '', CHR ''a'', CHR ''b'']
     = [(''ab'', 0, 2), (''cab'', 4, 7), (''ab'', 8, 10)]
   \<and> py_slice [CHR ''a'', CHR ''b'', CHR 0xA0, CHR '' '', CHR ''c'', CHR ''a'', CHR ''b'',
                CHR '' '', CHR ''a'', CHR ''b''] 8 10 = ''ab''
   \<and> is_space ([CHR ''a'', CHR ''b'', CHR 0xA0, CHR '' '', CHR ''c'', CHR ''a'', CHR ''b'',
                 CHR '' '', CHR ''a'', CHR ''b''] ! 2)
   \<and> convert_to_conll
        (Some \<lparr>sofa_element = Some [(''sofaString'',
                  [CHR ''a'', CHR ''b'', CHR 0xA0, CHR '' '', CHR ''c'', CHR ''a'', CHR ''b'',
                   CHR '' '', CHR ''a'', CHR ''b''])],
               token_elements = []\<rparr>) []
      = Inr ''ab 0 2 O\<newline>cab 4 7 O\<newline>ab 8 10 O''"
proof -
  let ?t = "[CHR ''a'', CHR ''b'', CHR 0xA0, CHR '' '', CHR ''c'', CHR ''a'', CHR ''b'',
             CHR '' '', CHR ''a'', CHR ''b'']"
  let ?xml = "Some \<lparr>sofa_element = Some [(''sofaString'', ?t)], token_elements = []\<rparr>"
  have td: "token_data_of ?t = [(''ab'', 0, 2), (''cab'', 4, 7), (''ab'', 8, 10)]"
    by code_simp
  note inst = token_offsets_reproduce [of ?t]
  from inst [THEN conjunct2, THEN conjunct1]
  have slice: "py_slice ?t 8 10 = ''ab''"
    unfolding td by simp
  have len: "2 < length ?t" by simp
  from inst [THEN conjunct2, THEN conjunct2, THEN conjunct2, THEN conjunct1, rule_format, OF len]
  have gap: "is_space (?t ! 2)"
    unfolding td by simp
  have sofa: "extract_sofa_string ?xml = Inr (Some ?t)" by code_simp
  have spans: "map span_fields (dict_values ([] :: (pyval, anno) dict)) = map Some []"
    by (simp add: dict_values_def)
  have short: "length (str_of_nat (length ?t)) \<le> int_max_str_digits"
    by code_simp
  from inst [THEN conjunct2, THEN conjunct2, THEN conjunct2, THEN conjunct2, rule_format,
             OF conjI [OF sofa conjI [OF spans short]]]
  obtain labels where "length labels = length (token_data_of ?t)"
    and out: "convert_to_conll ?xml []
         = Inr (join [CHR 0x0A]
                 (map2 (\<lambda>(tok, s, e) l. tok @ '' '' @ str_of_int s @ '' ''
                                          @ str_of_int e @ '' '' @ l)
                       (token_data_of ?t) labels))"
    by blast
  have direct: "convert_to_conll ?xml [] = Inr ''ab 0 2 O\<newline>cab 4 7 O\<newline>ab 8 10 O''"
    by code_simp
  from td slice gap direct show ?thesis by (intro conjI)
qed

section \<open>The BIO labels of the output\<close>

text \<open>
  C6. In \<^verbatim>\<open>convert_to_conll\<close>, for a document with text and spans whose \<^verbatim>\<open>label\<close> is a string
  and whose \<^verbatim>\<open>begin\<close> and \<^verbatim>\<open>end\<close> are integers (as every extracted span's are), and a
  text whose length is a number of at most 4300 digits (as that of every Python string
  is, being below \<open>2\<^sup>6\<^sup>3\<close>), the output has one line per whitespace
  token, and the label on a token's line is the specification's: every label starts as
  \<^verbatim>\<open>O\<close>; each span tags the first token whose start and end offsets both lie within the
  span \<^verbatim>\<open>B-label\<close> and every later such token \<^verbatim>\<open>I-label\<close>; a token inside no span stays
  \<^verbatim>\<open>O\<close>; and where spans overlap the tag written for the later span replaces the earlier
  one.
\<close>

theorem convert_to_conll_bio:
  assumes "extract_sofa_string xml = Inr (Some text)"
    and "map span_fields (dict_values ners_spans) = map Some triples"
    and "length (str_of_nat (length text)) \<le> int_max_str_digits"
  shows "convert_to_conll xml ners_spans
         = Inr (join [CHR 0x0A]
                 (map (\<lambda>(tok, s, e). tok @ '' '' @ str_of_int s @ '' '' @ str_of_int e @ '' ''
                         @ bio_label (token_data_of text) triples (tok, s, e))
                      (token_data_of text)))"
  using assms by (rule convert_to_conll_output)

text \<open>The theorem at two overlapping spans: the later span, over "York" alone, replaces
  the \<^verbatim>\<open>I-LOC\<close> that the earlier span wrote there.\<close>

theorem convert_to_conll_bio_witness:
  "convert_to_conll
     (Some \<lparr>sofa_element = Some [(''sofaString'', ''New York City is big'')], token_elements = []\<rparr>)
     [(PStr ''1'', [(''begin'', PInt 0), (''end'', PInt 13), (''label'', PStr ''LOC'')]),
      (PStr ''2'', [(''begin'', PInt 4), (''end'', PInt 8), (''label'', PStr ''ORG'')])]
   = Inr ''New 0 3 B-LOC\<newline>York 4 8 B-ORG\<newline>City 9 13 I-LOC\<newline>is 14 16 O\<newline>big 17 20 O''"
proof -
  let ?xml = "Some \<lparr>sofa_element = Some [(''sofaString'', ''New York City is big'')],
                    token_elements = []\<rparr>"
  let ?spans = "[(PStr ''1'', [(''begin'', PInt 0), (''end'', PInt 13), (''label'', PStr ''LOC'')]),
      (PStr ''2'', [(''begin'', PInt 4), (''end'', PInt 8), (''label'', PStr ''ORG'')])]"
  let ?triples = "[(''LOC'', 0, 13), (''ORG'', 4, 8)]"
  have 1: "extract_sofa_string ?xml = Inr (Some ''New York City is big'')"
    by code_simp
  have 2: "map span_fields (dict_values ?spans) = map Some ?triples"
    by code_simp
  have len: "length (str_of_nat (length ''New York City is big'')) \<le> int_max_str_digits"
    by code_simp
  have 3: "join [CHR 0x0A]
             (map (\<lambda>(tok, s, e). tok @ '' '' @ str_of_int s @ '' '' @ str_of_int e @ '' ''
                     @ bio_label (token_data_of ''New York City is big'') ?triples (tok, s, e))
                  (token_data_of ''New York City is big''))
           = ''New 0 3 B-LOC\<newline>York 4 8 B-ORG\<newline>City 9 13 I-LOC\<newline>is 14 16 O\<newline>big 17 20 O''"
    by code_simp
  from convert_to_conll_bio [OF 1 2 len] show ?thesis
    unfolding 3 .
qed

section \<open>The scenario of Paris and France\<close>

text \<open>
  C4 (as the code has it). In the text \<^verbatim>\<open>Paris is the capital of France .\<close> the token
  \<^verbatim>\<open>France\<close> has the offsets 24 to 30 and the final \<^verbatim>\<open>.\<close> the offsets 31 to 32. With the
  spans from 0 to 5 and from 27 to 33, \<^verbatim>\<open>Paris\<close> is tagged \<^verbatim>\<open>B-LOC\<close>, the only token inside
  the second span is the final \<^verbatim>\<open>.\<close>, which is tagged \<^verbatim>\<open>B-LOC\<close>, and every other token,
  \<^verbatim>\<open>France\<close> too, is tagged \<^verbatim>\<open>O\<close>. With a second span from 24 to 30, \<^verbatim>\<open>Paris\<close> and
  \<^verbatim>\<open>France\<close> are tagged \<^verbatim>\<open>B-LOC\<close> and every other token \<^verbatim>\<open>O\<close>.
\<close>

theorem paris_france_tags:
  "convert_to_conll
     (Some \<lparr>sofa_element = Some [(''sofaString'', ''Paris is the capital of France .'')],
            token_elements = []\<rparr>)
     [(PStr ''1'', [(''begin'', PInt 0), (''end'', PInt 5), (''label'', PStr ''LOC'')]),
      (PStr ''2'', [(''begin'', PInt 27), (''end'', PInt 33), (''label'', PStr ''LOC'')])]
   = Inr ''Paris 0 5 B-LOC\<newline>is 6 8 O\<newline>the 9 12 O\<newline>capital 13 20 O\<newline>of 21 23 O\<newline>France 24 30 O\<newline>. 31 32 B-LOC''
   \<and> convert_to_conll
     (Some \<lparr>sofa_element = Some [(''sofaString'', ''Paris is the capital of France .'')],
            token_elements = []\<rparr>)
     [(PStr ''1'', [(''begin'', PInt 0), (''end'', PInt 5), (''label'', PStr ''LOC'')]),
      (PStr ''2'', [(''begin'', PInt 24), (''end'', PInt 30), (''label'', PStr ''LOC'')])]
   = Inr ''Paris 0 5 B-LOC\<newline>is 6 8 O\<newline>the 9 12 O\<newline>capital 13 20 O\<newline>of 21 23 O\<newline>France 24 30 B-LOC\<newline>. 31 32 O''"
  by code_simp

text \<open>With the spans of the scenario, the label stored for the token \<^verbatim>\<open>France\<close> (start
  offset 24) is \<^verbatim>\<open>O\<close>, and the label \<^verbatim>\<open>B-LOC\<close> goes to the token at offset 31.\<close>

theorem paris_france_counterexample:
  "bio_labels ''Paris is the capital of France .''
     [(PStr ''1'', [(''begin'', PInt 0), (''end'', PInt 5), (''label'', PStr ''LOC'')]),
      (PStr ''2'', [(''begin'', PInt 27), (''end'', PInt 33), (''label'', PStr ''LOC'')])]
   = Inr [(0, ''B-LOC''), (6, ''O''), (9, ''O''), (13, ''O''), (21, ''O''), (24, ''O''),
          (31, ''B-LOC'')]
   \<and> token_data_of ''Paris is the capital of France .''
     = [(''Paris'', 0, 5), (''is'', 6, 8), (''the'', 9, 12), (''capital'', 13, 20),
        (''of'', 21, 23), (''France'', 24, 30), (''.'', 31, 32)]"
  by code_simp

end
